theory Spec2Isabelle
  imports Main "HOL-Library.AList"
begin

section \<open>Families of finite sets (uc\_well\_graded.py)\<close>

text \<open>
  The program works on Python \<^verbatim>\<open>set\<close>s of \<^verbatim>\<open>frozenset\<close>s of integers.

  \<^item> A \<^verbatim>\<open>frozenset\<close> of integers is an \<open>int set\<close>: union, intersection, difference,
    the strict inclusions \<^verbatim>\<open><\<close> and \<^verbatim>\<open>>\<close> and membership are the operations of HOL.
  \<^item> A family (a \<^verbatim>\<open>set\<close> of frozensets) is the list of its members in the order in
    which a \<^verbatim>\<open>for\<close> loop visits them. Python does not fix that order, so every
    theorem below is stated for an arbitrary list. A family that the program
    builds itself lists its members in the order of their insertion.
  \<^item> Where the program walks a set of integers (the universe of a family, a
    generator of the base), the order of the walk is the parameter \<open>iter\<close>.
  \<^item> \<^verbatim>\<open>len\<close> of a family is the length of its list: the lists that the program
    builds have no repetition.
\<close>

type_synonym frozenset = "int set"
type_synonym family = "int set list"

text \<open>\<^verbatim>\<open>s.update(set({x}))\<close>: \<open>x\<close> joins \<open>s\<close> unless it is a member already.\<close>

definition update_one :: "'a list \<Rightarrow> 'a \<Rightarrow> 'a list" where
  "update_one s x = (if x \<in> set s then s else s @ [x])"

lemma set_update_one: "set (update_one s x) = insert x (set s)"
  by (auto simp: update_one_def)

lemma distinct_update_one: "distinct s \<Longrightarrow> distinct (update_one s x)"
  by (simp add: update_one_def)

lemma update_one_member: "x \<in> set s \<Longrightarrow> update_one s x = s"
  by (simp add: update_one_def)

lemma update_one_fresh: "x \<notin> set s \<Longrightarrow> update_one s x = s @ [x]"
  by (simp add: update_one_def)

subsection \<open>is\_X\_closed\<close>

text \<open>
  \<^verbatim>\<open>
  for A in sets:
      for B in sets.difference(set({A})):
          inter = A.intersection(B)
          if X < inter and inter not in sets:
              return False
  return True
  \<close>
  The inner loop answers \<open>False\<close> where the source returns from inside it, and the
  outer loop then returns \<open>False\<close> without visiting another \<open>A\<close>.
\<close>

fun is_X_closed_inner :: "frozenset \<Rightarrow> family \<Rightarrow> family \<Rightarrow> frozenset \<Rightarrow> bool" where
  "is_X_closed_inner A [] sets X = True"
| "is_X_closed_inner A (B # Bs) sets X =
     (let inter = A \<inter> B in
      if X \<subset> inter \<and> inter \<notin> set sets then False
      else is_X_closed_inner A Bs sets X)"

fun is_X_closed_outer :: "family \<Rightarrow> family \<Rightarrow> frozenset \<Rightarrow> bool" where
  "is_X_closed_outer [] sets X = True"
| "is_X_closed_outer (A # As) sets X =
     (if \<not> is_X_closed_inner A (removeAll A sets) sets X then False
      else is_X_closed_outer As sets X)"

definition is_X_closed :: "family \<Rightarrow> frozenset \<Rightarrow> bool" where
  "is_X_closed sets X = is_X_closed_outer sets sets X"

subsection \<open>project\_family\<close>

text \<open>
  \<^verbatim>\<open>
  proj_family = set({})
  for A in sets:
      proj_family.update(set({frozenset(A.difference(X))}))
  return proj_family
  \<close>
\<close>

fun project_family_loop :: "family \<Rightarrow> frozenset \<Rightarrow> family \<Rightarrow> family" where
  "project_family_loop [] X proj_family = proj_family"
| "project_family_loop (A # sets) X proj_family =
     project_family_loop sets X (update_one proj_family (A - X))"

definition project_family :: "family \<Rightarrow> frozenset \<Rightarrow> family" where
  "project_family sets X = project_family_loop sets X []"

subsection \<open>create\_family\_from\_base\<close>

text \<open>
  \<^verbatim>\<open>
  uc_fam = copy.deepcopy(base)
  curr_size = len(uc_fam)
  prev_size = 0
  while curr_size > prev_size:
      prev_fam = copy.deepcopy(uc_fam)
      for a in prev_fam:
          for b in base:
              uc_fam.update(set({frozenset(a.union(b))}))
      prev_size = curr_size
      curr_size = len(uc_fam)
  return uc_fam
  \<close>
  \<open>union_with_base\<close> is the inner \<^verbatim>\<open>for\<close> loop, \<open>add_unions\<close> the outer one, and
  \<open>cffb_loop\<close> the \<^verbatim>\<open>while\<close> loop on the state \<open>(uc_fam, curr_size, prev_size)\<close>.
\<close>

fun union_with_base :: "frozenset \<Rightarrow> family \<Rightarrow> family \<Rightarrow> family" where
  "union_with_base a [] uc_fam = uc_fam"
| "union_with_base a (b # base) uc_fam = union_with_base a base (update_one uc_fam (a \<union> b))"

fun add_unions :: "family \<Rightarrow> family \<Rightarrow> family \<Rightarrow> family" where
  "add_unions [] base uc_fam = uc_fam"
| "add_unions (a # prev_fam) base uc_fam =
     add_unions prev_fam base (union_with_base a base uc_fam)"

text \<open>
  The \<^verbatim>\<open>while\<close> loop is not structurally recursive. It terminates because a pass
  only appends to \<open>uc_fam\<close>, every set it appends is a union of members of the base
  and of the family, and there are finitely many such unions: \<open>todo\<close> counts those
  that are not members yet.
\<close>

definition unions_of :: "'a set set \<Rightarrow> 'a set set" where
  "unions_of G = Union ` Pow G"

lemma unions_ofI: "S \<subseteq> G \<Longrightarrow> \<Union>S \<in> unions_of G"
  unfolding unions_of_def by (rule imageI) simp

lemma unions_ofE:
  assumes "X \<in> unions_of G"
  obtains S where "S \<subseteq> G" and "X = \<Union>S"
proof -
  from assms obtain S where "S \<in> Pow G" and "X = \<Union>S"
    unfolding unions_of_def by (rule imageE)
  then show thesis using that by simp
qed

lemma finite_unions_of: "finite G \<Longrightarrow> finite (unions_of G)"
  by (simp add: unions_of_def)

lemma unions_of_base: "g \<in> G \<Longrightarrow> g \<in> unions_of G"
  using unions_ofI [of "{g}" G] by simp

lemma unions_of_Un:
  assumes "A \<in> unions_of G" and "B \<in> unions_of G"
  shows "A \<union> B \<in> unions_of G"
proof -
  from assms(1) obtain S where S: "S \<subseteq> G" "A = \<Union>S" by (rule unions_ofE)
  from assms(2) obtain T where T: "T \<subseteq> G" "B = \<Union>T" by (rule unions_ofE)
  from S T have "S \<union> T \<subseteq> G" by simp
  then have "\<Union>(S \<union> T) \<in> unions_of G" by (rule unions_ofI)
  moreover from S T have "\<Union>(S \<union> T) = A \<union> B" by simp
  ultimately show ?thesis by simp
qed

lemma unions_of_closed:
  assumes sub: "G' \<subseteq> unions_of G"
  shows "unions_of G' \<subseteq> unions_of G"
proof
  fix X assume "X \<in> unions_of G'"
  then obtain S where S: "S \<subseteq> G'" "X = \<Union>S" by (rule unions_ofE)
  define T where "T = {g \<in> G. \<exists>s\<in>S. g \<subseteq> s}"
  have TG: "T \<subseteq> G" unfolding T_def by simp
  have "\<Union>T = \<Union>S"
  proof (rule equalityI; rule subsetI)
    fix x assume "x \<in> \<Union>T"
    then obtain g where "g \<in> T" "x \<in> g" by (rule UnionE)
    then obtain s where "s \<in> S" "g \<subseteq> s" unfolding T_def by blast
    with \<open>x \<in> g\<close> have "x \<in> s" by (simp add: subsetD)
    with \<open>s \<in> S\<close> show "x \<in> \<Union>S" by (rule UnionI)
  next
    fix x assume "x \<in> \<Union>S"
    then obtain s where s: "s \<in> S" "x \<in> s" by (rule UnionE)
    from s(1) S(1) sub have "s \<in> unions_of G" by (simp add: subsetD)
    then obtain U where U: "U \<subseteq> G" "s = \<Union>U" by (rule unions_ofE)
    from s(2) U(2) have "x \<in> \<Union>U" by simp
    then obtain g where g: "g \<in> U" "x \<in> g" by (rule UnionE)
    from g(1) U(2) have "g \<subseteq> s" by (simp add: Union_upper)
    moreover from g(1) U(1) have "g \<in> G" by (rule subsetD [rotated])
    ultimately have "g \<in> T" unfolding T_def using s(1) by blast
    then show "x \<in> \<Union>T" using g(2) by (rule UnionI)
  qed
  with unions_ofI [OF TG] S(2) show "X \<in> unions_of G" by simp
qed

lemma update_one_append: "\<exists>ys. update_one s x = s @ ys \<and> distinct ys \<and> set ys \<inter> set s = {}"
  by (simp add: update_one_def)

lemma set_union_with_base:
  "set (union_with_base a base uc) = set uc \<union> (\<lambda>b. a \<union> b) ` set base"
  by (induction base arbitrary: uc) (auto simp: set_update_one)

lemma set_add_unions:
  "set (add_unions prev base uc) = set uc \<union> (\<Union>a\<in>set prev. (\<lambda>b. a \<union> b) ` set base)"
  by (induction prev arbitrary: uc) (auto simp: set_union_with_base)

lemma union_with_base_append:
  "\<exists>ys. union_with_base a base uc = uc @ ys \<and> set ys \<inter> set uc = {}"
proof (induction base arbitrary: uc)
  case Nil
  then show ?case by simp
next
  case (Cons b base)
  obtain ys where ys: "update_one uc (a \<union> b) = uc @ ys" "set ys \<inter> set uc = {}"
    using update_one_append [of uc "a \<union> b"] by blast
  obtain zs where zs: "union_with_base a base (uc @ ys) = (uc @ ys) @ zs"
      "set zs \<inter> set (uc @ ys) = {}"
    using Cons.IH [of "uc @ ys"] by blast
  have "union_with_base a (b # base) uc = uc @ (ys @ zs)"
    using ys zs by simp
  moreover have "set (ys @ zs) \<inter> set uc = {}" using ys zs by auto
  ultimately show ?case by blast
qed

lemma add_unions_append:
  "\<exists>ys. add_unions prev base uc = uc @ ys \<and> set ys \<inter> set uc = {}"
proof (induction prev arbitrary: uc)
  case Nil
  then show ?case by simp
next
  case (Cons a prev)
  obtain ys where ys: "union_with_base a base uc = uc @ ys" "set ys \<inter> set uc = {}"
    using union_with_base_append [of a base uc] by blast
  obtain zs where zs: "add_unions prev base (uc @ ys) = (uc @ ys) @ zs"
      "set zs \<inter> set (uc @ ys) = {}"
    using Cons.IH [of "uc @ ys"] by blast
  have "add_unions (a # prev) base uc = uc @ (ys @ zs)"
    using ys zs by simp
  moreover have "set (ys @ zs) \<inter> set uc = {}" using ys zs by auto
  ultimately show ?case by blast
qed

lemma add_unions_length: "length uc \<le> length (add_unions prev base uc)"
  using add_unions_append [of prev base uc] by auto

lemma add_unions_same_length:
  "length (add_unions prev base uc) \<le> length uc \<Longrightarrow> add_unions prev base uc = uc"
  using add_unions_append [of prev base uc] by auto

lemma add_unions_in_unions_of:
  "set (add_unions F base F) \<subseteq> unions_of (set base \<union> set F)"
proof
  fix X assume "X \<in> set (add_unions F base F)"
  then consider "X \<in> set F" | a b where "a \<in> set F" "b \<in> set base" "X = a \<union> b"
    unfolding set_add_unions by blast
  then show "X \<in> unions_of (set base \<union> set F)"
  proof cases
    case 1
    then show ?thesis by (simp add: unions_of_base)
  next
    case 2
    then show ?thesis by (simp add: unions_of_Un unions_of_base)
  qed
qed

definition todo :: "family \<Rightarrow> family \<Rightarrow> nat" where
  "todo base F = card (unions_of (set base \<union> set F) - set F)"

lemma todo_step:
  assumes "length F < length (add_unions F base F)"
  shows "todo base (add_unions F base F) < todo base F"
proof -
  let ?F' = "add_unions F base F"
  let ?C = "unions_of (set base \<union> set F)" and ?C' = "unions_of (set base \<union> set ?F')"
  obtain ys where ys: "?F' = F @ ys" "set ys \<inter> set F = {}"
    using add_unions_append [of F base F] by blast
  with assms obtain y where y: "y \<in> set ys" by (cases ys) auto
  have sub: "set ?F' \<subseteq> ?C" by (rule add_unions_in_unions_of)
  have "set base \<union> set ?F' \<subseteq> ?C" using sub unions_of_base [of _ "set base \<union> set F"] by blast
  then have C': "?C' \<subseteq> ?C" by (rule unions_of_closed)
  have fin: "finite ?C" by (simp add: finite_unions_of)
  have "y \<in> ?C - set F" "y \<notin> ?C' - set ?F'" using y ys sub by auto
  moreover have "?C' - set ?F' \<subseteq> ?C - set F" using C' ys by auto
  ultimately have "?C' - set ?F' \<subset> ?C - set F" by blast
  with fin show ?thesis unfolding todo_def by (simp add: psubset_card_mono)
qed

function cffb_loop :: "family \<Rightarrow> family \<Rightarrow> nat \<Rightarrow> nat \<Rightarrow> family" where
  "cffb_loop base uc_fam curr_size prev_size =
     (if curr_size > prev_size then
        (let prev_fam = uc_fam;
             uc_fam' = add_unions prev_fam base uc_fam
         in cffb_loop base uc_fam' (length uc_fam') curr_size)
      else uc_fam)"
  by pat_completeness auto
termination
proof (relation "measures [\<lambda>(base, F, c, p). if c = length F then 0 else 1,
                           \<lambda>(base, F, c, p). 2 * todo base F + (if p < c then 1 else 0)]")
  show "wf (measures [\<lambda>(base, F, c, p). if c = length F then 0 else 1,
                           \<lambda>(base, F, c, p). 2 * todo base F + (if p < c then (1::nat) else 0)])"
    by simp
next
  fix base uc_fam :: family and curr_size prev_size :: nat and x xa
  assume run: "prev_size < curr_size" and x: "x = uc_fam" and xa: "xa = add_unions x base uc_fam"
  show "((base, xa, length xa, curr_size), base, uc_fam, curr_size, prev_size)
       \<in> measures [\<lambda>(base, F, c, p). if c = length F then 0 else 1,
                           \<lambda>(base, F, c, p). 2 * todo base F + (if p < c then 1 else 0)]"
  proof (cases "curr_size = length uc_fam")
    case False
    then show ?thesis by simp
  next
    case True
    show ?thesis
    proof (cases "length uc_fam < length xa")
      case grow: True
      then have "todo base xa < todo base uc_fam"
        unfolding xa x by (rule todo_step)
      with True run grow show ?thesis by simp
    next
      case False
      then have "xa = uc_fam" unfolding xa x by (simp add: add_unions_same_length)
      with True run show ?thesis by simp
    qed
  qed
qed


declare cffb_loop.simps [simp del]

definition create_family_from_base :: "family \<Rightarrow> family" where
  "create_family_from_base base = cffb_loop base base (length base) 0"

subsection \<open>get\_surmise\<close>

text \<open>
  \<^verbatim>\<open>
  universe = set()
  for curr_set in sets:
      universe.update(curr_set)
  num_sets = len(sets)
  surmise = {}
  for q in universe:
      q_surmise = set({})
      for curr_set in sets:
          if q in curr_set:
              if len(q_surmise) > 0:
                  is_minimal = True
                  for sur_set in q_surmise.copy():
                      if curr_set < sur_set:
                          q_surmise.remove(sur_set)
                      elif  curr_set > sur_set:
                          is_minimal = False
                          break
                  if is_minimal:
                      q_surmise.update(set({curr_set}))
              else:
                  q_surmise.update(set({curr_set}))
      surmise[q] = q_surmise
  return surmise
  \<close>
  \<^verbatim>\<open>set.remove\<close> raises \<^verbatim>\<open>KeyError\<close> when the element is not a member, and nothing
  in the program catches it: \<open>None\<close> is that exception, and it is carried to the
  callers. (\<^verbatim>\<open>num_sets\<close> is never read.)
\<close>

definition remove_one :: "'a list \<Rightarrow> 'a \<Rightarrow> 'a list option" where
  "remove_one s x = (if x \<in> set s then Some (removeAll x s) else None)"

text \<open>
  The innermost loop walks a copy of \<open>q_surmise\<close> and answers the pruned
  \<open>q_surmise\<close> with the flag \<open>is_minimal\<close>; the \<^verbatim>\<open>break\<close> leaves with the flag
  \<open>False\<close>.
\<close>

fun prune :: "frozenset \<Rightarrow> family \<Rightarrow> family \<Rightarrow> (family \<times> bool) option" where
  "prune curr_set [] q_surmise = Some (q_surmise, True)"
| "prune curr_set (sur_set # rest) q_surmise =
     (if curr_set \<subset> sur_set then
        (case remove_one q_surmise sur_set of
           None \<Rightarrow> None
         | Some q_surmise' \<Rightarrow> prune curr_set rest q_surmise')
      else if sur_set \<subset> curr_set then Some (q_surmise, False)
      else prune curr_set rest q_surmise)"

text \<open>The loop over the members of the family, for one element \<open>q\<close>.\<close>

fun q_surmise_loop :: "int \<Rightarrow> family \<Rightarrow> family \<Rightarrow> family option" where
  "q_surmise_loop q [] q_surmise = Some q_surmise"
| "q_surmise_loop q (curr_set # sets) q_surmise =
     (if q \<in> curr_set then
        (if length q_surmise > 0 then
           (case prune curr_set q_surmise q_surmise of
              None \<Rightarrow> None
            | Some (q_surmise', is_minimal) \<Rightarrow>
                q_surmise_loop q sets
                  (if is_minimal then update_one q_surmise' curr_set else q_surmise'))
         else q_surmise_loop q sets (update_one q_surmise curr_set))
      else q_surmise_loop q sets q_surmise)"

fun universe_loop :: "family \<Rightarrow> int set \<Rightarrow> int set" where
  "universe_loop [] universe = universe"
| "universe_loop (curr_set # sets) universe = universe_loop sets (universe \<union> curr_set)"

text \<open>
  The dictionary \<open>surmise\<close> is an association list in the order of insertion, as a
  Python \<^verbatim>\<open>dict\<close> is: \<^verbatim>\<open>surmise[q] = q_surmise\<close> is \<open>AList.update\<close>. The universe is
  walked in the order \<open>iter\<close> gives.
\<close>

type_synonym surmise = "(int \<times> family) list"

fun surmise_loop :: "int list \<Rightarrow> family \<Rightarrow> surmise \<Rightarrow> surmise option" where
  "surmise_loop [] sets surmise = Some surmise"
| "surmise_loop (q # qs) sets surmise =
     (case q_surmise_loop q sets [] of
        None \<Rightarrow> None
      | Some q_surmise \<Rightarrow> surmise_loop qs sets (AList.update q q_surmise surmise))"

definition get_surmise :: "(int set \<Rightarrow> int list) \<Rightarrow> family \<Rightarrow> surmise option" where
  "get_surmise iter sets = surmise_loop (iter (universe_loop sets {})) sets []"

subsection \<open>has\_unique\_atoms\<close>

text \<open>
  \<^verbatim>\<open>
  surmise = get_surmise(sets)
  surmise_sets = set({})
  surmise_count = 0
  for q in surmise.keys():
      for curr_set in surmise[q]:
          surmise_count += 1
          surmise_sets.update(set({curr_set}))
  if surmise_count == len(surmise_sets):
      return True
  else:
      return False
  \<close>
  The state of the two loops is the pair \<open>(surmise_sets, surmise_count)\<close>; a failed
  lookup \<^verbatim>\<open>surmise[q]\<close> would be a \<^verbatim>\<open>KeyError\<close>.
\<close>

fun count_inner :: "family \<Rightarrow> family \<times> nat \<Rightarrow> family \<times> nat" where
  "count_inner [] (surmise_sets, surmise_count) = (surmise_sets, surmise_count)"
| "count_inner (curr_set # rest) (surmise_sets, surmise_count) =
     count_inner rest (update_one surmise_sets curr_set, surmise_count + 1)"

fun count_outer :: "int list \<Rightarrow> surmise \<Rightarrow> family \<times> nat \<Rightarrow> (family \<times> nat) option" where
  "count_outer [] surmise st = Some st"
| "count_outer (q # qs) surmise st =
     (case map_of surmise q of
        None \<Rightarrow> None
      | Some q_surmise \<Rightarrow> count_outer qs surmise (count_inner q_surmise st))"

definition has_unique_atoms :: "(int set \<Rightarrow> int list) \<Rightarrow> family \<Rightarrow> bool option" where
  "has_unique_atoms iter sets =
     (case get_surmise iter sets of
        None \<Rightarrow> None
      | Some surmise \<Rightarrow>
          (case count_outer (map fst surmise) surmise ([], 0) of
             None \<Rightarrow> None
           | Some (surmise_sets, surmise_count) \<Rightarrow>
               if surmise_count = length surmise_sets then Some True else Some False))"

subsection \<open>is\_well\_graded\<close>

text \<open>
  \<^verbatim>\<open>
  print('Checking if each projection is well-graded...')
  for b in base:
      proj_sets = project_family(sets, b)
      curr_proj_str = 'F\\' + '{' + ','.join(str(n) for n in b) + '}'
      if not has_unique_atoms(proj_sets):
          print('ERROR: ' + curr_proj_str + ' is not well-graded')
          return False
      else:
          print(curr_proj_str + ' is well-graded')
  return True
  \<close>
  The function answers the printed lines, in order, with the returned boolean.
  \<open>str_int\<close> is \<^verbatim>\<open>str\<close> on integers, \<open>join\<close> is \<^verbatim>\<open>str.join\<close>, and the generator \<open>b\<close> is
  walked in the order \<open>iter b\<close>. The Python literal \<^verbatim>\<open>'F\\'\<close> is the letter F followed
  by one backslash, the character \<open>0x5C\<close>.
\<close>

fun digits :: "nat \<Rightarrow> string" where
  "digits n =
     (if n < 10 then [''0123456789'' ! n]
      else digits (n div 10) @ [''0123456789'' ! (n mod 10)])"

declare digits.simps [simp del]

definition str_int :: "int \<Rightarrow> string" where
  "str_int n = (if n < 0 then ''-'' @ digits (nat (- n)) else digits (nat n))"

fun join :: "string \<Rightarrow> string list \<Rightarrow> string" where
  "join sep [] = []"
| "join sep [x] = x"
| "join sep (x # y # ys) = x @ sep @ join sep (y # ys)"

definition proj_str :: "int list \<Rightarrow> string" where
  "proj_str b = ''F'' @ [CHR 0x5C] @ ''{'' @ join '','' (map str_int b) @ ''}''"

fun is_well_graded_loop ::
  "(int set \<Rightarrow> int list) \<Rightarrow> family \<Rightarrow> family \<Rightarrow> string list \<Rightarrow> (string list \<times> bool) option" where
  "is_well_graded_loop iter sets [] out = Some (out, True)"
| "is_well_graded_loop iter sets (b # base) out =
     (let proj_sets = project_family sets b;
          curr_proj_str = proj_str (iter b)
      in case has_unique_atoms iter proj_sets of
           None \<Rightarrow> None
         | Some unique \<Rightarrow>
             if \<not> unique then
               Some (out @ [''ERROR: '' @ curr_proj_str @ '' is not well-graded''], False)
             else is_well_graded_loop iter sets base (out @ [curr_proj_str @ '' is well-graded'']))"

definition is_well_graded ::
  "(int set \<Rightarrow> int list) \<Rightarrow> family \<Rightarrow> family \<Rightarrow> (string list \<times> bool) option" where
  "is_well_graded iter sets base =
     is_well_graded_loop iter sets base [''Checking if each projection is well-graded...'']"

subsection \<open>Notions used in the statements\<close>

text \<open>
  \<open>minimal_in V\<close> are the members of \<open>V\<close> with no strictly smaller member, and
  \<open>atoms_at q sets\<close> the inclusion-minimal members among those containing \<open>q\<close>.
\<close>

definition minimal_in :: "'a::order set \<Rightarrow> 'a set" where
  "minimal_in V = {A \<in> V. \<forall>B\<in>V. \<not> B < A}"

definition atoms_at :: "int \<Rightarrow> family \<Rightarrow> int set set" where
  "atoms_at q sets = {A \<in> set sets. q \<in> A \<and> (\<forall>B\<in>set sets. q \<in> B \<longrightarrow> \<not> B \<subset> A)}"


text \<open>
  For a dictionary \<open>d\<close>: \<open>associations d\<close> are the pairs of a key and a member of its
  entry, \<open>associated d\<close> are the members of all entries, and \<open>shared_free d\<close> says that
  no set is in the entries of two different keys.
\<close>

definition associations :: "('k \<times> 'a list) list \<Rightarrow> ('k \<times> 'a) set" where
  "associations d = {(q, A). \<exists>Q. map_of d q = Some Q \<and> A \<in> set Q}"

definition associated :: "('k \<times> 'a list) list \<Rightarrow> 'a set" where
  "associated d = {A. \<exists>q Q. map_of d q = Some Q \<and> A \<in> set Q}"

definition shared_free :: "('k \<times> 'a list) list \<Rightarrow> bool" where
  "shared_free d =
     (\<forall>q q' Q Q'. q \<noteq> q' \<and> map_of d q = Some Q \<and> map_of d q' = Some Q' \<longrightarrow> set Q \<inter> set Q' = {})"


text \<open>
  For \<open>is_well_graded\<close>: \<open>passes\<close> says that the projection by \<open>b\<close> has unique atoms,
  \<open>passed_line\<close> and \<open>error_line\<close> are the two lines the loop can print for \<open>b\<close>, and
  \<open>report\<close> is the list of lines printed for a base: one line for each generator
  up to and including the first whose projection fails.
\<close>

definition passes :: "(int set \<Rightarrow> int list) \<Rightarrow> family \<Rightarrow> frozenset \<Rightarrow> bool" where
  "passes iter sets b = (has_unique_atoms iter (project_family sets b) = Some True)"

definition passed_line :: "(int set \<Rightarrow> int list) \<Rightarrow> frozenset \<Rightarrow> string" where
  "passed_line iter b = proj_str (iter b) @ '' is well-graded''"

definition error_line :: "(int set \<Rightarrow> int list) \<Rightarrow> frozenset \<Rightarrow> string" where
  "error_line iter b = ''ERROR: '' @ proj_str (iter b) @ '' is not well-graded''"

definition report :: "(int set \<Rightarrow> int list) \<Rightarrow> family \<Rightarrow> family \<Rightarrow> string list" where
  "report iter sets base =
     map (passed_line iter) (takeWhile (passes iter sets) base)
     @ (case dropWhile (passes iter sets) base of [] \<Rightarrow> [] | b # rest \<Rightarrow> [error_line iter b])"


text \<open>
  One order in which a set of integers can be walked: by the residue modulo 8,
  ties in ascending order. It is the order of a hash table of eight slots that
  keeps the integer \<open>n\<close> in slot \<open>n mod 8\<close> and is read slot by slot. CPython walks
  \<^verbatim>\<open>frozenset({4, 5, 6, 8})\<close>, a generator of the base that \<^verbatim>\<open>create_base_for_example\<close>
  builds, in this order: \<^verbatim>\<open>list(frozenset({4, 5, 6, 8}))\<close> is \<^verbatim>\<open>[8, 4, 5, 6]\<close>.
\<close>

definition slot_order :: "int set \<Rightarrow> int list" where
  "slot_order S = sort_key (\<lambda>n. n mod 8) (sorted_list_of_set S)"


section \<open>Properties\<close>

subsection \<open>is\_X\_closed\<close>

lemma is_X_closed_inner_iff:
  "is_X_closed_inner A Bs sets X =
     (\<forall>B\<in>set Bs. X \<subset> A \<inter> B \<longrightarrow> A \<inter> B \<in> set sets)"
  by (induction Bs) (auto simp: Let_def)

lemma is_X_closed_outer_iff:
  "is_X_closed_outer As sets X =
     (\<forall>A\<in>set As. \<forall>B\<in>set sets. A \<noteq> B \<longrightarrow> X \<subset> A \<inter> B \<longrightarrow> A \<inter> B \<in> set sets)"
  by (induction As) (auto simp: is_X_closed_inner_iff)

text \<open>
  C5. \<open>is_X_closed sets X\<close> is \<open>True\<close> exactly when, for every ordered pair of
  distinct members \<open>A\<close>, \<open>B\<close> of the family with \<open>X\<close> a strict subset of \<open>A \<inter> B\<close>,
  the intersection \<open>A \<inter> B\<close> is a member of the family. The loops stop at the first
  violating pair: the inner loop answers \<open>False\<close> at a violating \<open>B\<close> whatever
  follows it, and the outer loop answers \<open>False\<close> at an \<open>A\<close> that has a violating
  partner whatever follows it.
\<close>

theorem is_X_closed_correct:
  "is_X_closed sets X =
     (\<forall>A\<in>set sets. \<forall>B\<in>set sets. A \<noteq> B \<longrightarrow> X \<subset> A \<inter> B \<longrightarrow> A \<inter> B \<in> set sets)
   \<and> (\<forall>A B Bs. X \<subset> A \<inter> B \<and> A \<inter> B \<notin> set sets \<longrightarrow>
          is_X_closed_inner A (B # Bs) sets X = False)
   \<and> (\<forall>A B As. B \<in> set sets \<and> B \<noteq> A \<and> X \<subset> A \<inter> B \<and> A \<inter> B \<notin> set sets \<longrightarrow>
          is_X_closed_outer (A # As) sets X = False)"
proof (intro conjI allI impI)
  show "is_X_closed sets X =
     (\<forall>A\<in>set sets. \<forall>B\<in>set sets. A \<noteq> B \<longrightarrow> X \<subset> A \<inter> B \<longrightarrow> A \<inter> B \<in> set sets)"
    by (simp add: is_X_closed_def is_X_closed_outer_iff)
next
  fix A B Bs
  assume "X \<subset> A \<inter> B \<and> A \<inter> B \<notin> set sets"
  then show "is_X_closed_inner A (B # Bs) sets X = False"
    by (simp add: Let_def)
next
  fix A B As
  assume v: "B \<in> set sets \<and> B \<noteq> A \<and> X \<subset> A \<inter> B \<and> A \<inter> B \<notin> set sets"
  then have "\<not> is_X_closed_inner A (removeAll A sets) sets X"
    by (auto simp: is_X_closed_inner_iff)
  then show "is_X_closed_outer (A # As) sets X = False"
    by simp
qed

theorem is_X_closed_correct_witness:
  "is_X_closed [{1, 2, 3}, {2, 3, 4}, {2, 3}] {2}
   \<and> {1, 2, 3} \<inter> {2, 3, 4} \<in> set [{1, 2, 3}, {2, 3, 4}, {2, 3 :: int}]
   \<and> is_X_closed [{1, 2, 3}, {2, 3, 4}] {2} = False
   \<and> is_X_closed_inner {1, 2, 3} [{2, 3, 4}, {5}] [{1, 2, 3}, {2, 3, 4}] {2} = False
   \<and> is_X_closed_outer [{1, 2, 3}, {7}] [{1, 2, 3}, {2, 3, 4}] {2} = False"
proof -
  let ?A = "{1, 2, 3 :: int}" and ?B = "{2, 3, 4 :: int}"
  let ?F = "[?A, ?B, {2, 3}]" and ?G = "[?A, ?B]"
  have ne: "?A \<noteq> ?B" and ne': "?B \<noteq> ?A" by code_simp+
  have sub: "{2} \<subset> ?A \<inter> ?B" by code_simp
  have mA: "?A \<in> set ?F" and mB: "?B \<in> set ?F" by code_simp+
  have a: "is_X_closed ?F {2}"
    by code_simp
  note closed = is_X_closed_correct [of ?F "{2}", THEN conjunct1, THEN iffD1, OF a]
  note pair = closed [THEN bspec, OF mA, THEN bspec, OF mB, THEN mp, OF ne, THEN mp, OF sub]
  have nm: "?A \<inter> ?B \<notin> set ?G" by code_simp
  have mB': "?B \<in> set ?G" by code_simp
  note stop = is_X_closed_correct [of ?G "{2}", THEN conjunct2]
  note c = stop [THEN conjunct1, rule_format, of ?A ?B "[{5}]", OF conjI, OF sub nm]
  note d = stop [THEN conjunct2, rule_format, of ?B ?A "[{7}]",
      OF conjI, OF mB' conjI, OF ne' conjI, OF sub nm]
  have b: "is_X_closed ?G {2} = False"
    by code_simp
  show ?thesis
    by (intro conjI) (rule a pair b c d)+
qed

subsection \<open>project\_family\<close>

lemma set_project_family_loop:
  "set (project_family_loop sets X acc) = set acc \<union> (\<lambda>A. A - X) ` set sets"
  by (induction sets arbitrary: acc) (auto simp: set_update_one)

lemma distinct_project_family_loop:
  "distinct acc \<Longrightarrow> distinct (project_family_loop sets X acc)"
  by (induction sets arbitrary: acc) (auto simp: distinct_update_one)

lemma set_project_family: "set (project_family sets X) = (\<lambda>A. A - X) ` set sets"
  by (simp add: project_family_def set_project_family_loop)

lemma distinct_project_family: "distinct (project_family sets X)"
  by (simp add: project_family_def distinct_project_family_loop)

lemma project_family_loop_fixed:
  "distinct (acc @ ys) \<Longrightarrow> \<forall>A\<in>set ys. A \<inter> X = {} \<Longrightarrow>
     project_family_loop ys X acc = acc @ ys"
proof (induction ys arbitrary: acc)
  case Nil
  then show ?case by simp
next
  case (Cons A ys)
  from Cons.prems have d: "A - X = A" by auto
  from Cons.prems have "A \<notin> set acc" by auto
  then have u: "update_one acc (A - X) = acc @ [A]"
    by (simp add: d update_one_fresh)
  from Cons.prems have "distinct ((acc @ [A]) @ ys)" by auto
  moreover from Cons.prems have "\<forall>B\<in>set ys. B \<inter> X = {}" by simp
  ultimately have "project_family_loop ys X (acc @ [A]) = (acc @ [A]) @ ys"
    by (rule Cons.IH)
  with u show ?case by simp
qed

text \<open>
  C9. Every member of \<open>project_family sets X\<close> is disjoint from \<open>X\<close>.
\<close>

theorem project_family_disjoint:
  "\<forall>A\<in>set (project_family sets X). A \<inter> X = {}"
  by (auto simp: set_project_family)

theorem project_family_disjoint_witness:
  "{1} \<in> set (project_family [{1, 2}, {1, 3}] {2, 3}) \<and> {1} \<inter> {2, 3 :: int} = {}"
proof -
  have m: "{1} \<in> set (project_family [{1, 2}, {1, 3}] {2, 3})"
    by code_simp
  note project_family_disjoint [of "[{1, 2}, {1, 3}]" "{2, 3}", THEN bspec, OF m]
  with m show ?thesis
    by (intro conjI)
qed

text \<open>
  C7. The projection has at most as many members as the family (\<^verbatim>\<open>len\<close> of the
  result, a list without repetition, against the number of distinct members of
  the family), and projecting the result again by the same \<open>X\<close> returns it
  unchanged.
\<close>

theorem project_family_nonexpanding_idempotent:
  "length (project_family sets X) = card (set (project_family sets X))
   \<and> card (set (project_family sets X)) \<le> card (set sets)
   \<and> project_family (project_family sets X) X = project_family sets X"
proof -
  have "length (project_family sets X) = card (set (project_family sets X))"
    by (simp add: distinct_card distinct_project_family)
  moreover have "card (set (project_family sets X)) \<le> card (set sets)"
    by (simp add: set_project_family card_image_le)
  moreover have "project_family (project_family sets X) X = project_family sets X"
    unfolding project_family_def [of "project_family sets X"]
    using project_family_loop_fixed [of "[]" "project_family sets X" X]
    by (simp add: distinct_project_family set_project_family Diff_Int_distrib2)
  ultimately show ?thesis by simp
qed

subsection \<open>create\_family\_from\_base\<close>

lemma cffb_loop_run:
  "prev_size < curr_size \<Longrightarrow>
     cffb_loop base uc_fam curr_size prev_size =
       cffb_loop base (add_unions uc_fam base uc_fam)
         (length (add_unions uc_fam base uc_fam)) curr_size"
  by (subst cffb_loop.simps) (simp add: Let_def)

lemma cffb_loop_stop:
  "\<not> prev_size < curr_size \<Longrightarrow> cffb_loop base uc_fam curr_size prev_size = uc_fam"
  by (subst cffb_loop.simps) simp

lemma cffb_loop_fixpoint:
  "c = length F \<Longrightarrow> (c \<le> p \<Longrightarrow> add_unions F base F = F) \<Longrightarrow>
     add_unions (cffb_loop base F c p) base (cffb_loop base F c p) = cffb_loop base F c p"
proof (induction base F c p rule: cffb_loop.induct)
  case (1 base F c p)
  show ?case
  proof (cases "p < c")
    case True
    let ?F' = "add_unions F base F"
    have "add_unions (cffb_loop base ?F' (length ?F') c) base (cffb_loop base ?F' (length ?F') c)
            = cffb_loop base ?F' (length ?F') c"
    proof (rule "1.IH" [OF True refl refl refl])
      assume "length ?F' \<le> c"
      with "1.prems"(1) have "?F' = F" by (simp add: add_unions_same_length)
      then show "add_unions ?F' base ?F' = ?F'" by simp
    qed
    with True show ?thesis by (simp add: cffb_loop_run)
  next
    case False
    with "1.prems" show ?thesis by (simp add: cffb_loop_stop)
  qed
qed

lemma cffb_loop_extends: "set F \<subseteq> set (cffb_loop base F c p)"
proof (induction base F c p rule: cffb_loop.induct)
  case (1 base F c p)
  show ?case
  proof (cases "p < c")
    case True
    let ?F' = "add_unions F base F"
    have "set ?F' \<subseteq> set (cffb_loop base ?F' (length ?F') c)"
      by (rule "1.IH" [OF True refl refl])
    moreover have "set F \<subseteq> set ?F'" by (simp add: set_add_unions)
    ultimately show ?thesis using True by (simp add: cffb_loop_run)
  next
    case False
    then show ?thesis by (simp add: cffb_loop_stop)
  qed
qed

lemma cffb_loop_within:
  "set base \<subseteq> G \<Longrightarrow> (\<And>A B. A \<in> G \<Longrightarrow> B \<in> G \<Longrightarrow> A \<union> B \<in> G) \<Longrightarrow> set F \<subseteq> G \<Longrightarrow>
     set (cffb_loop base F c p) \<subseteq> G"
proof (induction base F c p rule: cffb_loop.induct)
  case (1 base F c p)
  show ?case
  proof (cases "p < c")
    case True
    let ?F' = "add_unions F base F"
    have "set ?F' \<subseteq> G"
      using "1.prems" by (auto simp: set_add_unions)
    then have "set (cffb_loop base ?F' (length ?F') c) \<subseteq> G"
      using "1.prems"(1,2) by (intro "1.IH" [OF True refl refl]) 
    with True show ?thesis by (simp add: cffb_loop_run)
  next
    case False
    with "1.prems" show ?thesis by (simp add: cffb_loop_stop)
  qed
qed

lemma create_family_from_base_step:
  assumes "a \<in> set (create_family_from_base base)" and "b \<in> set base"
  shows "a \<union> b \<in> set (create_family_from_base base)"
proof -
  let ?R = "create_family_from_base base"
  have "add_unions ?R base ?R = ?R"
    unfolding create_family_from_base_def
    by (rule cffb_loop_fixpoint) simp_all
  then have "set (add_unions ?R base ?R) = set ?R" by simp
  with assms show ?thesis unfolding set_add_unions by blast
qed

lemma create_family_from_base_extends: "set base \<subseteq> set (create_family_from_base base)"
  unfolding create_family_from_base_def by (rule cffb_loop_extends)

lemma create_family_from_base_least:
  assumes "set base \<subseteq> G" and "\<And>A B. A \<in> G \<Longrightarrow> B \<in> G \<Longrightarrow> A \<union> B \<in> G"
  shows "set (create_family_from_base base) \<subseteq> G"
  unfolding create_family_from_base_def
  by (rule cffb_loop_within) (use assms in simp_all)

lemma create_family_from_base_union:
  assumes "A \<in> set (create_family_from_base base)" and "B \<in> set (create_family_from_base base)"
  shows "A \<union> B \<in> set (create_family_from_base base)"
proof -
  let ?R = "create_family_from_base base"
  define G where "G = {B. \<forall>A\<in>set ?R. A \<union> B \<in> set ?R}"
  have "set base \<subseteq> G"
    unfolding G_def using create_family_from_base_step by blast
  moreover have "\<And>B C. B \<in> G \<Longrightarrow> C \<in> G \<Longrightarrow> B \<union> C \<in> G"
  proof -
    fix B C assume B: "B \<in> G" and C: "C \<in> G"
    show "B \<union> C \<in> G"
      unfolding G_def
    proof (rule CollectI, rule ballI)
      fix A assume "A \<in> set ?R"
      with B have "A \<union> B \<in> set ?R" unfolding G_def by blast
      with C have "(A \<union> B) \<union> C \<in> set ?R" unfolding G_def by blast
      then show "A \<union> (B \<union> C) \<in> set ?R" by (simp add: Un_assoc)
    qed
  qed
  ultimately have "set ?R \<subseteq> G" by (rule create_family_from_base_least)
  with assms show ?thesis unfolding G_def by blast
qed

text \<open>
  C1. The family returned by \<open>create_family_from_base\<close> contains the base, is closed
  under the union of any two of its members, and is contained in every
  union-closed family that contains the base: it is the smallest union-closed
  family containing the base.
\<close>

theorem create_family_from_base_closure:
  "set base \<subseteq> set (create_family_from_base base)
   \<and> (\<forall>A\<in>set (create_family_from_base base). \<forall>B\<in>set (create_family_from_base base).
         A \<union> B \<in> set (create_family_from_base base))
   \<and> (\<forall>G. set base \<subseteq> G \<and> (\<forall>A\<in>G. \<forall>B\<in>G. A \<union> B \<in> G)
         \<longrightarrow> set (create_family_from_base base) \<subseteq> G)"
proof (intro conjI ballI allI impI)
  show "set base \<subseteq> set (create_family_from_base base)"
    by (rule create_family_from_base_extends)
next
  fix A B
  assume "A \<in> set (create_family_from_base base)" "B \<in> set (create_family_from_base base)"
  then show "A \<union> B \<in> set (create_family_from_base base)"
    by (rule create_family_from_base_union)
next
  fix G assume G: "set base \<subseteq> G \<and> (\<forall>A\<in>G. \<forall>B\<in>G. A \<union> B \<in> G)"
  then have "set base \<subseteq> G" and "\<And>A B. A \<in> G \<Longrightarrow> B \<in> G \<Longrightarrow> A \<union> B \<in> G" by blast+
  then show "set (create_family_from_base base) \<subseteq> G"
    by (rule create_family_from_base_least)
qed

theorem create_family_from_base_closure_witness:
  "{1} \<union> {2} \<in> set (create_family_from_base [{1}, {2}])
   \<and> set (create_family_from_base [{1}, {2}]) \<subseteq> {{1}, {2}, {1, 2}}"
proof -
  let ?base = "[{1}, {2 :: int}]"
  let ?G = "{{1}, {2}, {1, 2 :: int}}"
  note cl = create_family_from_base_closure [of ?base]
  have m1: "{1} \<in> set (create_family_from_base ?base)"
    and m2: "{2} \<in> set (create_family_from_base ?base)" by code_simp+
  note a = cl [THEN conjunct2, THEN conjunct1, THEN bspec, OF m1, THEN bspec, OF m2]
  have g1: "set ?base \<subseteq> ?G" by code_simp
  have g2: "\<forall>A\<in>?G. \<forall>B\<in>?G. A \<union> B \<in> ?G" by code_simp
  note b = cl [THEN conjunct2, THEN conjunct2, THEN spec, of ?G, THEN mp, OF conjI, OF g1 g2]
  show ?thesis by (intro conjI) (rule a b)+
qed

lemma add_unions_closed_fixed:
  assumes closed: "\<And>A B. A \<in> set R \<Longrightarrow> B \<in> set R \<Longrightarrow> A \<union> B \<in> set R"
  shows "add_unions R R R = R"
proof -
  obtain ys where ys: "add_unions R R R = R @ ys" and disj: "set ys \<inter> set R = {}"
    using add_unions_append [of R R R] by blast
  have "set (add_unions R R R) \<subseteq> set R"
    unfolding set_add_unions using closed by blast
  then have "set ys \<subseteq> set R" by (simp add: ys)
  then have "set ys \<inter> set R = set ys" by (rule inf.absorb1)
  with disj have "ys = []" by simp
  then show ?thesis by (simp add: ys)
qed

lemma create_family_from_base_fixed:
  assumes fp: "add_unions R R R = R"
  shows "create_family_from_base R = R"
proof (cases "R = []")
  case True
  then show ?thesis by (simp add: create_family_from_base_def cffb_loop_stop)
next
  case False
  then have pos: "0 < length R" by simp
  have "cffb_loop R R (length R) 0 = cffb_loop R R (length R) (length R)"
    using cffb_loop_run [OF pos, of R R] by (simp only: fp)
  also have "\<dots> = R" by (rule cffb_loop_stop) simp
  finally show ?thesis by (simp only: create_family_from_base_def)
qed

text \<open>
  C6. The closure engine is idempotent: applied to its own output,
  \<open>create_family_from_base\<close> returns that output (the same members in the same
  order).
\<close>

theorem create_family_from_base_idempotent:
  "create_family_from_base (create_family_from_base base) = create_family_from_base base"
  by (rule create_family_from_base_fixed, rule add_unions_closed_fixed,
      rule create_family_from_base_union)

subsection \<open>get\_surmise\<close>

lemma minimal_in_subset: "minimal_in V \<subseteq> V"
  by (auto simp: minimal_in_def)

lemma minimal_in_antichain: "A \<in> minimal_in V \<Longrightarrow> B \<in> minimal_in V \<Longrightarrow> \<not> A < B"
  by (auto simp: minimal_in_def)

lemma minimal_below:
  assumes "finite V" and "B \<in> V"
  shows "\<exists>t\<in>minimal_in V. t \<le> B"
proof -
  from finite_has_minimal2 [OF assms]
  obtain m where m: "m \<in> V" "m \<le> B" "\<forall>b\<in>V. b \<le> m \<longrightarrow> m = b" by blast
  have "\<forall>b\<in>V. \<not> b < m"
  proof
    fix b assume "b \<in> V"
    show "\<not> b < m"
    proof
      assume "b < m"
      then have "b \<le> m" by simp
      with m(3) \<open>b \<in> V\<close> have "m = b" by blast
      with \<open>b < m\<close> show False by simp
    qed
  qed
  with m(1) have "m \<in> minimal_in V" by (simp add: minimal_in_def)
  with m(2) show ?thesis by blast
qed

lemma minimal_in_insert_dominated:
  assumes "t \<in> minimal_in V" and "t < c"
  shows "minimal_in (insert c V) = minimal_in V"
proof -
  from assms(1) have tV: "t \<in> V" and tmin: "\<forall>B\<in>V. \<not> B < t" by (auto simp: minimal_in_def)
  have "c \<notin> minimal_in (insert c V)"
    using tV assms(2) by (auto simp: minimal_in_def)
  moreover have "\<And>A. A \<in> minimal_in V \<Longrightarrow> \<not> c < A"
  proof
    fix A assume "A \<in> minimal_in V" "c < A"
    with assms(2) have "t < A" by simp
    with \<open>A \<in> minimal_in V\<close> tV show False by (auto simp: minimal_in_def)
  qed
  ultimately show ?thesis by (auto simp: minimal_in_def)
qed

lemma minimal_in_insert_new:
  assumes "finite V" and "\<forall>t\<in>minimal_in V. \<not> t < c"
  shows "minimal_in (insert c V) = insert c {s \<in> minimal_in V. \<not> c < s}"
proof -
  have "\<forall>B\<in>V. \<not> B < c"
  proof
    fix B assume "B \<in> V"
    with assms(1) obtain t where t: "t \<in> minimal_in V" "t \<le> B"
      using minimal_below by blast
    show "\<not> B < c"
    proof
      assume "B < c"
      with t(2) have "t < c" by simp
      with assms(2) t(1) show False by blast
    qed
  qed
  then show ?thesis by (auto simp: minimal_in_def)
qed

lemma remove_one_member: "x \<in> set s \<Longrightarrow> remove_one s x = Some (removeAll x s)"
  by (simp add: remove_one_def)

lemma prune_dominated:
  "\<forall>s\<in>set cp. \<not> c < s \<Longrightarrow> \<exists>t\<in>set cp. t < c \<Longrightarrow> prune c cp qs = Some (qs, False)"
  by (induction cp) auto

lemma prune_minimal:
  "\<forall>t\<in>set cp. \<not> t < c \<Longrightarrow> distinct cp \<Longrightarrow> set cp \<subseteq> set qs \<Longrightarrow>
     \<exists>qs'. prune c cp qs = Some (qs', True)
        \<and> set qs' = set qs - {s \<in> set cp. c < s} \<and> (distinct qs \<longrightarrow> distinct qs')"
proof (induction cp arbitrary: qs)
  case Nil
  then show ?case by simp
next
  case (Cons s rest)
  from Cons.prems have ns: "\<not> s < c" and rest: "\<forall>t\<in>set rest. \<not> t < c"
    and d: "distinct rest" and srest: "s \<notin> set rest"
    and sq: "s \<in> set qs" and sub: "set rest \<subseteq> set qs" by simp_all
  show ?case
  proof (cases "c < s")
    case True
    let ?qs = "removeAll s qs"
    from sub srest have "set rest \<subseteq> set ?qs" by auto
    from Cons.IH [OF rest d this]
    obtain qs' where qs': "prune c rest ?qs = Some (qs', True)"
      "set qs' = set ?qs - {s \<in> set rest. c < s}" "distinct ?qs \<longrightarrow> distinct qs'"
      by blast
    from True sq qs'(1) have "prune c (s # rest) qs = Some (qs', True)"
      by (simp add: remove_one_member)
    moreover from qs'(2) True have "set qs' = set qs - {t \<in> set (s # rest). c < t}"
      by auto
    moreover from qs'(3) have "distinct qs \<longrightarrow> distinct qs'"
      by (simp add: distinct_removeAll)
    ultimately show ?thesis by blast
  next
    case False
    from Cons.IH [OF rest d sub]
    obtain qs' where qs': "prune c rest qs = Some (qs', True)"
      "set qs' = set qs - {s \<in> set rest. c < s}" "distinct qs \<longrightarrow> distinct qs'"
      by blast
    from False ns qs'(1) have "prune c (s # rest) qs = Some (qs', True)"
      by simp
    moreover from qs'(2) False have "set qs' = set qs - {t \<in> set (s # rest). c < t}"
      by auto
    ultimately show ?thesis using qs'(3) by blast
  qed
qed

lemma filter_union_visit:
  "P c \<Longrightarrow> insert c V \<union> {A \<in> set xs. P A} = V \<union> {A \<in> set (c # xs). P A}"
  by auto

lemma filter_union_skip:
  "\<not> P c \<Longrightarrow> V \<union> {A \<in> set xs. P A} = V \<union> {A \<in> set (c # xs). P A}"
  by auto

lemma diff_filter: "Q' = Q - {s \<in> Q. P s} \<Longrightarrow> {s \<in> Q. \<not> P s} = Q'"
  by auto

lemma q_surmise_loop_visit:
  assumes fin: "finite V" and d: "distinct qs" and m: "set qs = minimal_in V" and q: "q \<in> c"
  shows "\<exists>qs1. q_surmise_loop q (c # xs) qs = q_surmise_loop q xs qs1
           \<and> distinct qs1 \<and> set qs1 = minimal_in (insert c V)"
proof (cases "\<exists>t\<in>set qs. t < c")
  case True
  then obtain t where t: "t \<in> set qs" "t < c" by blast
  then have ne: "0 < length qs" by (cases qs) auto
  have "\<forall>s\<in>set qs. \<not> c < s"
  proof
    fix s assume s: "s \<in> set qs"
    show "\<not> c < s"
    proof
      assume "c < s"
      with t(2) have "t < s" by simp
      moreover from t(1) s m have "t \<in> minimal_in V" "s \<in> minimal_in V" by simp_all
      ultimately show False using minimal_in_antichain by blast
    qed
  qed
  then have "prune c qs qs = Some (qs, False)"
    using True by (rule prune_dominated)
  with q ne have "q_surmise_loop q (c # xs) qs = q_surmise_loop q xs qs" by simp
  moreover from t m have "minimal_in (insert c V) = minimal_in V"
    by (simp add: minimal_in_insert_dominated)
  ultimately have "q_surmise_loop q (c # xs) qs = q_surmise_loop q xs qs
      \<and> distinct qs \<and> set qs = minimal_in (insert c V)"
    using d m by simp
  then show ?thesis by (rule exI)
next
  case False
  then have nd: "\<forall>t\<in>set qs. \<not> t < c" by blast
  from prune_minimal [OF nd d subset_refl] d
  obtain qs' where qs': "prune c qs qs = Some (qs', True)"
    "set qs' = set qs - {s \<in> set qs. c < s}" "distinct qs'"
    by blast
  have step: "q_surmise_loop q (c # xs) qs = q_surmise_loop q xs (update_one qs' c)"
  proof (cases "0 < length qs")
    case True
    with q qs'(1) show ?thesis by simp
  next
    case False
    then have "qs = []" by simp
    with qs'(1) have "qs' = []" by simp
    with \<open>qs = []\<close> q show ?thesis by simp
  qed
  from nd m have "minimal_in (insert c V) = insert c {s \<in> minimal_in V. \<not> c < s}"
    using minimal_in_insert_new [OF fin] by simp
  also have "{s \<in> minimal_in V. \<not> c < s} = set qs'"
    by (rule diff_filter) (simp only: qs'(2) m)
  finally have "set (update_one qs' c) = minimal_in (insert c V)"
    by (simp add: set_update_one)
  with step qs'(3) have "q_surmise_loop q (c # xs) qs = q_surmise_loop q xs (update_one qs' c)
      \<and> distinct (update_one qs' c) \<and> set (update_one qs' c) = minimal_in (insert c V)"
    by (simp add: distinct_update_one)
  then show ?thesis by (rule exI)
qed

lemma q_surmise_loop_spec:
  "finite V \<Longrightarrow> distinct qs \<Longrightarrow> set qs = minimal_in V \<Longrightarrow>
     \<exists>r. q_surmise_loop q xs qs = Some r \<and> distinct r
        \<and> set r = minimal_in (V \<union> {A \<in> set xs. q \<in> A})"
proof (induction xs arbitrary: qs V)
  case Nil
  then show ?case by simp
next
  case (Cons c xs)
  show ?case
  proof (cases "q \<in> c")
    case True
    from q_surmise_loop_visit [OF Cons.prems True, of xs]
    obtain qs1 where qs1: "q_surmise_loop q (c # xs) qs = q_surmise_loop q xs qs1"
      "distinct qs1" "set qs1 = minimal_in (insert c V)" by blast
    from Cons.prems(1) have "finite (insert c V)" by simp
    from Cons.IH [OF this qs1(2,3)]
    obtain r where r: "q_surmise_loop q xs qs1 = Some r" "distinct r"
      "set r = minimal_in (insert c V \<union> {A \<in> set xs. q \<in> A})" by blast
    from True have "insert c V \<union> {A \<in> set xs. q \<in> A} = V \<union> {A \<in> set (c # xs). q \<in> A}"
      by (rule filter_union_visit)
    with r qs1(1) show ?thesis by simp
  next
    case False
    from Cons.IH [OF Cons.prems]
    obtain r where r: "q_surmise_loop q xs qs = Some r" "distinct r"
      "set r = minimal_in (V \<union> {A \<in> set xs. q \<in> A})" by blast
    from False have "V \<union> {A \<in> set xs. q \<in> A} = V \<union> {A \<in> set (c # xs). q \<in> A}"
      by (rule filter_union_skip)
    with r False show ?thesis by simp
  qed
qed

lemma atoms_at_minimal_in: "atoms_at q sets = minimal_in {A \<in> set sets. q \<in> A}"
  by (auto simp: atoms_at_def minimal_in_def)

lemma q_surmise_loop_atoms:
  "\<exists>r. q_surmise_loop q sets [] = Some r \<and> distinct r \<and> set r = atoms_at q sets"
proof -
  have "set [] = minimal_in ({} :: int set set)" by (simp add: minimal_in_def)
  moreover have "distinct ([] :: family)" by simp
  ultimately have "\<exists>r. q_surmise_loop q sets [] = Some r \<and> distinct r
        \<and> set r = minimal_in ({} \<union> {A \<in> set sets. q \<in> A})"
    by (intro q_surmise_loop_spec) simp_all
  then show ?thesis by (simp add: atoms_at_minimal_in)
qed

lemma universe_loop_eq: "universe_loop sets U = U \<union> \<Union>(set sets)"
  by (induction sets arbitrary: U) auto

lemma surmise_loop_spec:
  "distinct (map fst d0) \<Longrightarrow>
     \<exists>d. surmise_loop qs sets d0 = Some d \<and> distinct (map fst d)
        \<and> fst ` set d = fst ` set d0 \<union> set qs
        \<and> (\<forall>q. map_of d q = (if q \<in> set qs then q_surmise_loop q sets [] else map_of d0 q))"
proof (induction qs arbitrary: d0)
  case Nil
  then show ?case by simp
next
  case (Cons k qs)
  obtain r where r: "q_surmise_loop k sets [] = Some r"
    using q_surmise_loop_atoms [of k sets] by blast
  let ?d1 = "AList.update k r d0"
  from Cons.prems have "distinct (map fst ?d1)" by (simp add: distinct_update)
  from Cons.IH [OF this]
  obtain d where d: "surmise_loop qs sets ?d1 = Some d" "distinct (map fst d)"
    "fst ` set d = fst ` set ?d1 \<union> set qs"
    "\<forall>q. map_of d q = (if q \<in> set qs then q_surmise_loop q sets [] else map_of ?d1 q)"
    by blast
  from r d(1) have 1: "surmise_loop (k # qs) sets d0 = Some d" by simp
  from d(3) have 3: "fst ` set d = fst ` set d0 \<union> set (k # qs)"
    by (simp add: dom_update)
  have 4: "\<forall>q. map_of d q = (if q \<in> set (k # qs) then q_surmise_loop q sets [] else map_of d0 q)"
  proof
    fix q
    show "map_of d q = (if q \<in> set (k # qs) then q_surmise_loop q sets [] else map_of d0 q)"
      using d(4) [rule_format, of q] r by (simp add: update_conv')
  qed
  from 1 d(2) 3 4 show ?case by blast
qed

lemma get_surmise_spec:
  "\<exists>d. get_surmise iter sets = Some d \<and> distinct (map fst d)
      \<and> fst ` set d = set (iter (\<Union>(set sets)))
      \<and> (\<forall>q. map_of d q =
            (if q \<in> set (iter (\<Union>(set sets))) then q_surmise_loop q sets [] else None))"
proof -
  have "distinct (map fst ([] :: surmise))" by simp
  from surmise_loop_spec [OF this, of "iter (\<Union>(set sets))" sets]
  obtain d where d: "surmise_loop (iter (\<Union>(set sets))) sets [] = Some d"
    "distinct (map fst d)" "fst ` set d = fst ` set ([] :: surmise) \<union> set (iter (\<Union>(set sets)))"
    "\<forall>q. map_of d q = (if q \<in> set (iter (\<Union>(set sets))) then q_surmise_loop q sets []
          else map_of [] q)"
    by blast
  from d(1) have "get_surmise iter sets = Some d"
    by (simp add: get_surmise_def universe_loop_eq)
  moreover from d(3) have "fst ` set d = set (iter (\<Union>(set sets)))" by simp
  moreover from d(4) have "\<forall>q. map_of d q =
            (if q \<in> set (iter (\<Union>(set sets))) then q_surmise_loop q sets [] else None)"
    by simp
  ultimately show ?thesis using d(2) by blast
qed

lemma get_surmise_atoms:
  assumes "q \<in> set (iter (\<Union>(set sets)))"
  shows "\<exists>d r. get_surmise iter sets = Some d \<and> map_of d q = Some r \<and> distinct r
           \<and> set r = atoms_at q sets"
proof -
  obtain d where d: "get_surmise iter sets = Some d"
    "\<forall>q. map_of d q =
            (if q \<in> set (iter (\<Union>(set sets))) then q_surmise_loop q sets [] else None)"
    using get_surmise_spec [of iter sets] by blast
  obtain r where r: "q_surmise_loop q sets [] = Some r" "distinct r" "set r = atoms_at q sets"
    using q_surmise_loop_atoms [of q sets] by blast
  from d(2) [rule_format, of q] assms r(1) have "map_of d q = Some r" by simp
  with d(1) r(2,3) show ?thesis by blast
qed

lemma atoms_at_cong: "set sets' = set sets \<Longrightarrow> atoms_at q sets' = atoms_at q sets"
  by (simp add: atoms_at_def)

lemma atoms_at_antichain: "A \<in> atoms_at q sets \<Longrightarrow> B \<in> atoms_at q sets \<Longrightarrow> \<not> A \<subset> B"
  unfolding atoms_at_minimal_in by (rule minimal_in_antichain)

lemma atoms_at_member: "A \<in> atoms_at q sets \<Longrightarrow> q \<in> A \<and> A \<in> set sets"
  by (simp add: atoms_at_def)

text \<open>
  C2. Let \<open>iter\<close> walk the universe of the family completely, and let \<open>q\<close> be an
  element of the union of the members. Then \<open>get_surmise\<close> returns a dictionary
  (no \<^verbatim>\<open>KeyError\<close>) that maps \<open>q\<close> to exactly the inclusion-minimal members among
  those containing \<open>q\<close>, without repetition: every returned set contains \<open>q\<close> and
  is a member, no returned set is a strict subset of another, and any other order
  of visiting the same members (and of walking the universe) returns the same
  sets for \<open>q\<close>.
\<close>

theorem get_surmise_minimal:
  assumes "set (iter (\<Union>(set sets))) = \<Union>(set sets)" and "q \<in> \<Union>(set sets)"
  shows "\<exists>surmise q_surmise.
     get_surmise iter sets = Some surmise \<and> map_of surmise q = Some q_surmise
     \<and> distinct q_surmise
     \<and> set q_surmise = {A \<in> set sets. q \<in> A \<and> (\<forall>B\<in>set sets. q \<in> B \<longrightarrow> \<not> B \<subset> A)}
     \<and> (\<forall>A\<in>set q_surmise. q \<in> A \<and> A \<in> set sets)
     \<and> (\<forall>A\<in>set q_surmise. \<forall>B\<in>set q_surmise. \<not> A \<subset> B)
     \<and> (\<forall>iter' sets'. set sets' = set sets \<and> set (iter' (\<Union>(set sets'))) = \<Union>(set sets') \<longrightarrow>
          (\<exists>surmise' q_surmise'. get_surmise iter' sets' = Some surmise'
             \<and> map_of surmise' q = Some q_surmise' \<and> set q_surmise' = set q_surmise))"
proof -
  from assms have "q \<in> set (iter (\<Union>(set sets)))" by simp
  from get_surmise_atoms [of q iter sets, OF this]
  obtain d r where d: "get_surmise iter sets = Some d" "map_of d q = Some r" "distinct r"
    and r: "set r = atoms_at q sets" by blast
  have 1: "set r = {A \<in> set sets. q \<in> A \<and> (\<forall>B\<in>set sets. q \<in> B \<longrightarrow> \<not> B \<subset> A)}"
    by (simp only: r atoms_at_def)
  have 2: "\<forall>A\<in>set r. q \<in> A \<and> A \<in> set sets"
    unfolding r by (rule ballI) (rule atoms_at_member)
  have 3: "\<forall>A\<in>set r. \<forall>B\<in>set r. \<not> A \<subset> B"
    unfolding r by (intro ballI) (rule atoms_at_antichain)
  have 4: "\<forall>iter' sets'. set sets' = set sets \<and> set (iter' (\<Union>(set sets'))) = \<Union>(set sets') \<longrightarrow>
          (\<exists>surmise' q_surmise'. get_surmise iter' sets' = Some surmise'
             \<and> map_of surmise' q = Some q_surmise' \<and> set q_surmise' = set r)"
  proof (intro allI impI)
    fix iter' sets'
    assume a: "set sets' = set sets \<and> set (iter' (\<Union>(set sets'))) = \<Union>(set sets')"
    then have s: "set sets' = set sets" by (rule conjunct1)
    from a have i: "set (iter' (\<Union>(set sets'))) = \<Union>(set sets')" by (rule conjunct2)
    from assms(2) have "q \<in> \<Union>(set sets')" by (simp only: s)
    then have "q \<in> set (iter' (\<Union>(set sets')))" by (simp only: i)
    from get_surmise_atoms [of q iter' sets', OF this]
    obtain d' r' where d': "get_surmise iter' sets' = Some d'" "map_of d' q = Some r'"
      and r': "set r' = atoms_at q sets'" by blast
    from atoms_at_cong [OF s, of q] r' r have "set r' = set r" by simp
    with d' show "\<exists>surmise' q_surmise'. get_surmise iter' sets' = Some surmise'
             \<and> map_of surmise' q = Some q_surmise' \<and> set q_surmise' = set r"
      by (intro exI [of _ d'] exI [of _ r'] conjI)
  qed
  show ?thesis
    by (intro exI [of _ d] exI [of _ r] conjI) (rule d 1 2 3 4)+
qed

theorem get_surmise_minimal_witness:
  "set (sorted_list_of_set (\<Union>(set [{1}, {1, 2}, {2, 3}, {3 :: int}])))
     = \<Union>(set [{1}, {1, 2}, {2, 3}, {3}])
   \<and> 2 \<in> \<Union>(set [{1}, {1, 2}, {2, 3}, {3 :: int}])
   \<and> (\<exists>surmise q_surmise.
         get_surmise sorted_list_of_set [{1}, {1, 2}, {2, 3}, {3}] = Some surmise
         \<and> map_of surmise 2 = Some q_surmise \<and> set q_surmise = {{1, 2}, {2, 3}})"
proof -
  let ?F = "[{1}, {1, 2}, {2, 3}, {3 :: int}]"
  have h1: "set (sorted_list_of_set (\<Union>(set ?F))) = \<Union>(set ?F)" by code_simp
  have h2: "2 \<in> \<Union>(set ?F)" by code_simp
  have ev: "{A \<in> set ?F. 2 \<in> A \<and> (\<forall>B\<in>set ?F. 2 \<in> B \<longrightarrow> \<not> B \<subset> A)} = {{1, 2}, {2, 3}}"
    by code_simp
  from get_surmise_minimal [of sorted_list_of_set ?F 2, OF h1 h2]
  obtain s qs where s: "get_surmise sorted_list_of_set ?F = Some s" "map_of s 2 = Some qs"
    and qs: "set qs = {A \<in> set ?F. 2 \<in> A \<and> (\<forall>B\<in>set ?F. 2 \<in> B \<longrightarrow> \<not> B \<subset> A)}"
    by (elim exE conjE)
  from qs have "set qs = {{1, 2}, {2, 3}}" by (simp only: ev)
  with s have "\<exists>surmise q_surmise.
         get_surmise sorted_list_of_set ?F = Some surmise
         \<and> map_of surmise 2 = Some q_surmise \<and> set q_surmise = {{1, 2}, {2, 3}}"
    by (intro exI [of _ s] exI [of _ qs] conjI)
  with h1 h2 show ?thesis by (intro conjI)
qed

subsection \<open>has\_unique\_atoms\<close>

lemma count_inner_spec:
  "\<exists>ss'. count_inner Q (ss, n) = (ss', n + length Q) \<and> set ss' = set ss \<union> set Q
      \<and> (distinct ss \<longrightarrow> distinct ss')"
proof (induction Q arbitrary: ss n)
  case Nil
  then show ?case by simp
next
  case (Cons A Q)
  from Cons.IH [of "update_one ss A" "n + 1"]
  obtain ss' where ss': "count_inner Q (update_one ss A, n + 1) = (ss', n + 1 + length Q)"
    "set ss' = set (update_one ss A) \<union> set Q" "distinct (update_one ss A) \<longrightarrow> distinct ss'"
    by blast
  from ss'(1) have "count_inner (A # Q) (ss, n) = (ss', n + length (A # Q))" by simp
  moreover from ss'(2) have "set ss' = set ss \<union> set (A # Q)" by (simp add: set_update_one)
  moreover from ss'(3) have "distinct ss \<longrightarrow> distinct ss'" by (simp add: distinct_update_one)
  ultimately show ?case by (intro exI [of _ ss'] conjI)
qed

lemma count_outer_spec:
  "set ks \<subseteq> fst ` set d \<Longrightarrow> distinct (map fst d) \<Longrightarrow>
     \<exists>ss'. count_outer ks d (ss, n)
              = Some (ss', n + sum_list (map (\<lambda>k. length (the (map_of d k))) ks))
        \<and> set ss' = set ss \<union> (\<Union>k\<in>set ks. set (the (map_of d k)))
        \<and> (distinct ss \<longrightarrow> distinct ss')"
proof (induction ks arbitrary: ss n)
  case Nil
  then show ?case by simp
next
  case (Cons k ks)
  from Cons.prems have "k \<in> fst ` set d" by simp
  then obtain Q where Q: "map_of d k = Some Q"
    by (metis map_of_eq_None_iff not_Some_eq)
  obtain s1 where s1: "count_inner Q (ss, n) = (s1, n + length Q)" "set s1 = set ss \<union> set Q"
    "distinct ss \<longrightarrow> distinct s1"
    using count_inner_spec [of Q ss n] by blast
  from Cons.prems have "set ks \<subseteq> fst ` set d" by simp
  from Cons.IH [OF this Cons.prems(2), of s1 "n + length Q"]
  obtain ss' where ss': "count_outer ks d (s1, n + length Q)
        = Some (ss', n + length Q + sum_list (map (\<lambda>k. length (the (map_of d k))) ks))"
    "set ss' = set s1 \<union> (\<Union>k\<in>set ks. set (the (map_of d k)))" "distinct s1 \<longrightarrow> distinct ss'"
    by blast
  from Q s1(1) ss'(1) have "count_outer (k # ks) d (ss, n)
       = Some (ss', n + sum_list (map (\<lambda>k. length (the (map_of d k))) (k # ks)))"
    by (simp add: add.assoc)
  moreover from Q s1(2) ss'(2)
  have "set ss' = set ss \<union> (\<Union>k\<in>set (k # ks). set (the (map_of d k)))"
    by (simp add: Un_assoc)
  moreover from s1(3) ss'(3) have "distinct ss \<longrightarrow> distinct ss'" by simp
  ultimately show ?case by (intro exI [of _ ss'] conjI)
qed

lemma map_of_fst_snd:
  "distinct (map fst d) \<Longrightarrow> e \<in> set d \<Longrightarrow> map_of d (fst e) = Some (snd e)"
  by simp

lemma count_keys_total:
  assumes "distinct (map fst d)"
  shows "sum_list (map (\<lambda>k. length (the (map_of d k))) (map fst d)) = sum_list (map (length \<circ> snd) d)"
proof -
  have "map ((\<lambda>k. length (the (map_of d k))) \<circ> fst) d = map (length \<circ> snd) d"
    by (rule map_cong) (simp_all add: assms map_of_fst_snd)
  then show ?thesis by (simp only: map_map)
qed

lemma count_keys_union:
  assumes "distinct (map fst d)"
  shows "(\<Union>k\<in>set (map fst d). set (the (map_of d k))) = (\<Union>e\<in>set d. set (snd e))"
  using assms by (auto simp: map_of_fst_snd)

lemma count_outer_all:
  assumes "distinct (map fst d)"
  shows "\<exists>ss'. count_outer (map fst d) d ([], 0) = Some (ss', sum_list (map (length \<circ> snd) d))
           \<and> length ss' = card (\<Union>e\<in>set d. set (snd e))"
proof -
  have "set (map fst d) \<subseteq> fst ` set d" by simp
  from count_outer_spec [OF this assms, of "[]" 0]
  obtain ss' where ss': "count_outer (map fst d) d ([], 0)
              = Some (ss', 0 + sum_list (map (\<lambda>k. length (the (map_of d k))) (map fst d)))"
    "set ss' = set [] \<union> (\<Union>k\<in>set (map fst d). set (the (map_of d k)))"
    "distinct ([] :: family) \<longrightarrow> distinct ss'"
    by blast
  from ss'(1) have "count_outer (map fst d) d ([], 0) = Some (ss', sum_list (map (length \<circ> snd) d))"
    by (simp only: count_keys_total [OF assms] add_0)
  moreover have "length ss' = card (\<Union>e\<in>set d. set (snd e))"
  proof -
    from ss'(2) have "set ss' = (\<Union>e\<in>set d. set (snd e))"
      by (simp only: count_keys_union [OF assms] list.set Un_empty_left)
    moreover from ss'(3) have "card (set ss') = length ss'" by (simp add: distinct_card)
    ultimately show ?thesis by simp
  qed
  ultimately have "count_outer (map fst d) d ([], 0) = Some (ss', sum_list (map (length \<circ> snd) d))
           \<and> length ss' = card (\<Union>e\<in>set d. set (snd e))"
    by (rule conjI)
  then show ?thesis by (rule exI)
qed

lemma associations_Nil: "associations [] = {}"
  by (simp add: associations_def)

lemma associated_Nil: "associated [] = {}"
  by (simp add: associated_def)

lemma map_of_fresh: "k \<notin> fst ` set d \<Longrightarrow> map_of d k = None"
  by (simp add: map_of_eq_None_iff)

lemma associations_Cons:
  "k \<notin> fst ` set d \<Longrightarrow> associations ((k, K) # d) = ({k} \<times> set K) \<union> associations d"
  by (auto simp: associations_def map_of_fresh split: if_splits)

lemma associated_Cons:
  assumes "k \<notin> fst ` set d"
  shows "associated ((k, K) # d) = set K \<union> associated d"
proof (rule equalityI; rule subsetI)
  fix A assume "A \<in> associated ((k, K) # d)"
  then obtain q Q where "map_of ((k, K) # d) q = Some Q" "A \<in> set Q"
    by (auto simp: associated_def)
  then show "A \<in> set K \<union> associated d"
    by (cases "q = k") (auto simp: associated_def)
next
  fix A assume "A \<in> set K \<union> associated d"
  then consider "A \<in> set K" | q Q where "map_of d q = Some Q" "A \<in> set Q"
    by (auto simp: associated_def)
  then show "A \<in> associated ((k, K) # d)"
  proof cases
    case 1
    then have "map_of ((k, K) # d) k = Some K \<and> A \<in> set K" by simp
    then show ?thesis unfolding associated_def by blast
  next
    case 2
    with assms have "q \<noteq> k" by (auto simp: map_of_fresh)
    with 2 have "map_of ((k, K) # d) q = Some Q \<and> A \<in> set Q" by simp
    then show ?thesis unfolding associated_def by blast
  qed
qed

lemma associations_keys: "(q, A) \<in> associations d \<Longrightarrow> q \<in> fst ` set d"
  by (auto simp: associations_def dest!: map_of_SomeD intro: rev_image_eqI)

lemma associated_entries: "distinct (map fst d) \<Longrightarrow> associated d = (\<Union>e\<in>set d. set (snd e))"
proof (induction d)
  case Nil
  then show ?case by (simp add: associated_Nil)
next
  case (Cons e d)
  obtain k K where e: "e = (k, K)" by (cases e)
  with Cons.prems have "k \<notin> fst ` set d" "distinct (map fst d)" by auto
  with Cons.IH e show ?case by (simp add: associated_Cons)
qed

lemma finite_associated: "distinct (map fst d) \<Longrightarrow> finite (associated d)"
  by (simp add: associated_entries)

lemma finite_associations: "distinct (map fst d) \<Longrightarrow> finite (associations d)"
proof (induction d)
  case Nil
  then show ?case by (simp add: associations_Nil)
next
  case (Cons e d)
  obtain k K where e: "e = (k, K)" by (cases e)
  with Cons.prems have "k \<notin> fst ` set d" "distinct (map fst d)" by auto
  with Cons.IH e show ?case by (simp add: associations_Cons)
qed

lemma card_associations:
  "distinct (map fst d) \<Longrightarrow> \<forall>e\<in>set d. distinct (snd e) \<Longrightarrow>
     card (associations d) = sum_list (map (length \<circ> snd) d)"
proof (induction d)
  case Nil
  then show ?case by (simp add: associations_Nil)
next
  case (Cons e d)
  obtain k K where e: "e = (k, K)" by (cases e)
  with Cons.prems have k: "k \<notin> fst ` set d" and d: "distinct (map fst d)"
    and K: "distinct K" and ds: "\<forall>e\<in>set d. distinct (snd e)" by auto
  have disj: "({k} \<times> set K) \<inter> associations d = {}"
    using k associations_keys [of _ _ d] by auto
  have "card (associations (e # d)) = card (({k} \<times> set K) \<union> associations d)"
    by (simp add: e associations_Cons [OF k])
  also have "\<dots> = card ({k} \<times> set K) + card (associations d)"
    using disj by (simp add: card_Un_disjoint finite_associations [OF d])
  also have "card ({k} \<times> set K) = length K"
    using K by (simp add: card_cartesian_product distinct_card)
  finally show ?case using Cons.IH [OF d ds] e by simp
qed

lemma shared_free_Cons:
  assumes "k \<notin> fst ` set d"
  shows "shared_free ((k, K) # d) = (shared_free d \<and> set K \<inter> associated d = {})"
proof
  assume sf: "shared_free ((k, K) # d)"
  have 1: "shared_free d"
    unfolding shared_free_def
  proof (intro allI impI)
    fix q q' Q Q'
    assume a: "q \<noteq> q' \<and> map_of d q = Some Q \<and> map_of d q' = Some Q'"
    with assms have "q \<noteq> k" "q' \<noteq> k" by (auto simp: map_of_fresh)
    with a have "q \<noteq> q' \<and> map_of ((k, K) # d) q = Some Q \<and> map_of ((k, K) # d) q' = Some Q'"
      by simp
    with sf show "set Q \<inter> set Q' = {}" unfolding shared_free_def by blast
  qed
  have 2: "set K \<inter> associated d = {}"
  proof (rule ccontr)
    assume "set K \<inter> associated d \<noteq> {}"
    then obtain A q Q where A: "A \<in> set K" "map_of d q = Some Q" "A \<in> set Q"
      by (auto simp: associated_def)
    with assms have "q \<noteq> k" by (auto simp: map_of_fresh)
    with A(2) have "k \<noteq> q \<and> map_of ((k, K) # d) k = Some K \<and> map_of ((k, K) # d) q = Some Q"
      by simp
    with sf have "set K \<inter> set Q = {}" unfolding shared_free_def by blast
    with A show False by blast
  qed
  from 1 2 show "shared_free d \<and> set K \<inter> associated d = {}" ..
next
  assume a: "shared_free d \<and> set K \<inter> associated d = {}"
  show "shared_free ((k, K) # d)"
    unfolding shared_free_def
  proof (intro allI impI)
    fix q q' Q Q'
    assume b: "q \<noteq> q' \<and> map_of ((k, K) # d) q = Some Q \<and> map_of ((k, K) # d) q' = Some Q'"
    consider "q = k" "q' \<noteq> k" | "q \<noteq> k" "q' = k" | "q \<noteq> k" "q' \<noteq> k"
      using b by blast
    then show "set Q \<inter> set Q' = {}"
    proof cases
      case 1
      with b have "Q = K" "map_of d q' = Some Q'" by simp_all
      then have "set Q' \<subseteq> associated d" by (auto simp: associated_def)
      with a \<open>Q = K\<close> show ?thesis by blast
    next
      case 2
      with b have "Q' = K" "map_of d q = Some Q" by simp_all
      then have "set Q \<subseteq> associated d" by (auto simp: associated_def)
      with a \<open>Q' = K\<close> show ?thesis by blast
    next
      case 3
      with b have "q \<noteq> q' \<and> map_of d q = Some Q \<and> map_of d q' = Some Q'" by simp
      with a show ?thesis unfolding shared_free_def by blast
    qed
  qed
qed

lemma card_associated:
  "distinct (map fst d) \<Longrightarrow> \<forall>e\<in>set d. distinct (snd e) \<Longrightarrow>
     card (associated d) \<le> sum_list (map (length \<circ> snd) d)
     \<and> (sum_list (map (length \<circ> snd) d) = card (associated d)) = shared_free d"
proof (induction d)
  case Nil
  then show ?case by (simp add: associated_Nil shared_free_def)
next
  case (Cons e d)
  obtain k K where e: "e = (k, K)" by (cases e)
  with Cons.prems have k: "k \<notin> fst ` set d" and d: "distinct (map fst d)"
    and K: "distinct K" and ds: "\<forall>e\<in>set d. distinct (snd e)" by auto
  note ih = Cons.IH [OF d ds]
  note le = ih [THEN conjunct1] and eq = ih [THEN conjunct2]
  have fin: "finite (associated d)" by (rule finite_associated [OF d])
  have un: "card (set K) + card (associated d)
      = card (set K \<union> associated d) + card (set K \<inter> associated d)"
    by (rule card_Un_Int) (simp_all add: fin)
  have cK: "card (set K) = length K" using K by (simp add: distinct_card)
  have zero: "(card (set K \<inter> associated d) = 0) = (set K \<inter> associated d = {})"
    by simp
  have A: "associated (e # d) = set K \<union> associated d"
    by (simp add: e associated_Cons [OF k])
  have S: "sum_list (map (length \<circ> snd) (e # d)) = length K + sum_list (map (length \<circ> snd) d)"
    by (simp add: e)
  have 1: "card (associated (e # d)) \<le> sum_list (map (length \<circ> snd) (e # d))"
    unfolding A S using un cK le by linarith
  have "(sum_list (map (length \<circ> snd) (e # d)) = card (associated (e # d)))
      = (sum_list (map (length \<circ> snd) d) = card (associated d) \<and> card (set K \<inter> associated d) = 0)"
    unfolding A S using un cK le by linarith
  also have "\<dots> = (shared_free d \<and> set K \<inter> associated d = {})"
    by (simp only: eq zero)
  also have "\<dots> = shared_free (e # d)"
    by (simp only: e shared_free_Cons [OF k])
  finally have "(sum_list (map (length \<circ> snd) (e # d)) = card (associated (e # d)))
      = shared_free (e # d)" .
  with 1 show ?case by (rule conjI)
qed

lemma get_surmise_entries:
  "\<exists>d. get_surmise iter sets = Some d \<and> distinct (map fst d) \<and> (\<forall>e\<in>set d. distinct (snd e))
      \<and> (\<forall>q Q. (map_of d q = Some Q)
            = (q \<in> set (iter (\<Union>(set sets))) \<and> q_surmise_loop q sets [] = Some Q))"
proof -
  obtain d where d: "get_surmise iter sets = Some d" "distinct (map fst d)"
    "fst ` set d = set (iter (\<Union>(set sets)))"
    "\<forall>q. map_of d q =
            (if q \<in> set (iter (\<Union>(set sets))) then q_surmise_loop q sets [] else None)"
    using get_surmise_spec [of iter sets] by blast
  have lookup: "\<forall>q Q. (map_of d q = Some Q)
            = (q \<in> set (iter (\<Union>(set sets))) \<and> q_surmise_loop q sets [] = Some Q)"
    using d(4) by simp
  have "\<forall>e\<in>set d. distinct (snd e)"
  proof
    fix e assume "e \<in> set d"
    with d(2) have "map_of d (fst e) = Some (snd e)" by simp
    with lookup have "q_surmise_loop (fst e) sets [] = Some (snd e)" by simp
    with q_surmise_loop_atoms [of "fst e" sets] show "distinct (snd e)" by auto
  qed
  with d(1,2) lookup show ?thesis by (intro exI [of _ d] conjI)
qed

lemma has_unique_atoms_spec:
  "\<exists>d. get_surmise iter sets = Some d \<and> distinct (map fst d) \<and> (\<forall>e\<in>set d. distinct (snd e))
      \<and> (\<forall>q Q. (map_of d q = Some Q)
            = (q \<in> set (iter (\<Union>(set sets))) \<and> q_surmise_loop q sets [] = Some Q))
      \<and> has_unique_atoms iter sets
          = Some (sum_list (map (length \<circ> snd) d) = card (associated d))"
proof -
  obtain d where d: "get_surmise iter sets = Some d" "distinct (map fst d)"
    "\<forall>e\<in>set d. distinct (snd e)"
    "\<forall>q Q. (map_of d q = Some Q)
            = (q \<in> set (iter (\<Union>(set sets))) \<and> q_surmise_loop q sets [] = Some Q)"
    using get_surmise_entries [of iter sets] by blast
  obtain ss where ss: "count_outer (map fst d) d ([], 0) = Some (ss, sum_list (map (length \<circ> snd) d))"
    "length ss = card (\<Union>e\<in>set d. set (snd e))"
    using count_outer_all [OF d(2)] by blast
  from ss(2) have "length ss = card (associated d)"
    by (simp only: associated_entries [OF d(2)])
  with d(1) ss(1) have "has_unique_atoms iter sets
          = Some (sum_list (map (length \<circ> snd) d) = card (associated d))"
    by (simp add: has_unique_atoms_def)
  with d show ?thesis by (intro exI [of _ d] conjI)
qed

lemma shared_free_atoms:
  assumes lookup: "\<forall>q Q. (map_of d q = Some Q) = (q \<in> U \<and> q_surmise_loop q sets [] = Some Q)"
  shows "shared_free d = (\<forall>q\<in>U. \<forall>q'\<in>U. q \<noteq> q' \<longrightarrow> atoms_at q sets \<inter> atoms_at q' sets = {})"
proof
  assume sf: "shared_free d"
  show "\<forall>q\<in>U. \<forall>q'\<in>U. q \<noteq> q' \<longrightarrow> atoms_at q sets \<inter> atoms_at q' sets = {}"
  proof (intro ballI impI)
    fix q q' assume q: "q \<in> U" "q' \<in> U" "q \<noteq> q'"
    obtain Q where Q: "q_surmise_loop q sets [] = Some Q" "set Q = atoms_at q sets"
      using q_surmise_loop_atoms [of q sets] by blast
    obtain Q' where Q': "q_surmise_loop q' sets [] = Some Q'" "set Q' = atoms_at q' sets"
      using q_surmise_loop_atoms [of q' sets] by blast
    from q Q(1) Q'(1) lookup have "q \<noteq> q' \<and> map_of d q = Some Q \<and> map_of d q' = Some Q'"
      by simp
    with sf have "set Q \<inter> set Q' = {}" unfolding shared_free_def by blast
    then show "atoms_at q sets \<inter> atoms_at q' sets = {}" by (simp only: Q(2) Q'(2))
  qed
next
  assume a: "\<forall>q\<in>U. \<forall>q'\<in>U. q \<noteq> q' \<longrightarrow> atoms_at q sets \<inter> atoms_at q' sets = {}"
  show "shared_free d"
    unfolding shared_free_def
  proof (intro allI impI)
    fix q q' Q Q'
    assume b: "q \<noteq> q' \<and> map_of d q = Some Q \<and> map_of d q' = Some Q'"
    with lookup have q: "q \<in> U" "q' \<in> U" "q \<noteq> q'"
      and Q: "q_surmise_loop q sets [] = Some Q" "q_surmise_loop q' sets [] = Some Q'"
      by simp_all
    from Q(1) q_surmise_loop_atoms [of q sets] have 1: "set Q = atoms_at q sets" by auto
    from Q(2) q_surmise_loop_atoms [of q' sets] have 2: "set Q' = atoms_at q' sets" by auto
    from a q have "atoms_at q sets \<inter> atoms_at q' sets = {}" by simp
    then show "set Q \<inter> set Q' = {}" by (simp only: 1 2)
  qed
qed

text \<open>
  C4. \<open>has_unique_atoms\<close> returns (no \<^verbatim>\<open>KeyError\<close>), and its answer is \<open>True\<close> exactly
  when the number of (element, minimal set) associations in the surmise system
  it builds equals the number of distinct sets in that system; equivalently, when
  no set is in the surmise of two different elements. When \<open>iter\<close> walks the whole
  universe, this says that no two different elements of the universe share an
  inclusion-minimal member.
\<close>

theorem has_unique_atoms_counts:
  "\<exists>surmise. get_surmise iter sets = Some surmise
     \<and> has_unique_atoms iter sets
         = Some (card {(q, A). \<exists>Q. map_of surmise q = Some Q \<and> A \<in> set Q}
                  = card {A. \<exists>q Q. map_of surmise q = Some Q \<and> A \<in> set Q})
     \<and> (has_unique_atoms iter sets = Some True)
         = (\<forall>q q' Q Q'. q \<noteq> q' \<and> map_of surmise q = Some Q \<and> map_of surmise q' = Some Q'
              \<longrightarrow> set Q \<inter> set Q' = {})
     \<and> (set (iter (\<Union>(set sets))) = \<Union>(set sets) \<longrightarrow>
          (has_unique_atoms iter sets = Some True)
            = (\<forall>q\<in>\<Union>(set sets). \<forall>q'\<in>\<Union>(set sets). q \<noteq> q'
                 \<longrightarrow> atoms_at q sets \<inter> atoms_at q' sets = {}))"
proof -
  obtain d where d: "get_surmise iter sets = Some d" "distinct (map fst d)"
    "\<forall>e\<in>set d. distinct (snd e)"
    and lookup: "\<forall>q Q. (map_of d q = Some Q)
            = (q \<in> set (iter (\<Union>(set sets))) \<and> q_surmise_loop q sets [] = Some Q)"
    and h: "has_unique_atoms iter sets
          = Some (sum_list (map (length \<circ> snd) d) = card (associated d))"
    using has_unique_atoms_spec [of iter sets] by blast
  note ca = card_associations [OF d(2,3)]
  note cd = card_associated [OF d(2,3), THEN conjunct2]
  from h have 1: "has_unique_atoms iter sets = Some (card (associations d) = card (associated d))"
    by (simp only: ca)
  from h have 2: "(has_unique_atoms iter sets = Some True) = shared_free d"
    by (simp only: cd option.inject simp_thms)
  have 3: "set (iter (\<Union>(set sets))) = \<Union>(set sets) \<longrightarrow>
          (has_unique_atoms iter sets = Some True)
            = (\<forall>q\<in>\<Union>(set sets). \<forall>q'\<in>\<Union>(set sets). q \<noteq> q'
                 \<longrightarrow> atoms_at q sets \<inter> atoms_at q' sets = {})"
  proof
    assume v: "set (iter (\<Union>(set sets))) = \<Union>(set sets)"
    have "\<forall>q Q. (map_of d q = Some Q)
            = (q \<in> \<Union>(set sets) \<and> q_surmise_loop q sets [] = Some Q)"
      using lookup unfolding v .
    from shared_free_atoms [OF this] 2
    show "(has_unique_atoms iter sets = Some True)
            = (\<forall>q\<in>\<Union>(set sets). \<forall>q'\<in>\<Union>(set sets). q \<noteq> q'
                 \<longrightarrow> atoms_at q sets \<inter> atoms_at q' sets = {})"
      by (rule trans [rotated])
  qed
  show ?thesis
    by (rule exI [of _ d], intro conjI)
       (rule d(1), rule 1 [unfolded associations_def associated_def],
        rule 2 [unfolded shared_free_def], rule 3)
qed

theorem has_unique_atoms_counts_witness:
  "has_unique_atoms sorted_list_of_set [{1, 2}, {1, 2, 3}] = Some False
   \<and> card {(q, A). \<exists>Q. map_of [(1 :: int, [{1, 2}]), (2, [{1, 2}]), (3, [{1, 2, 3 :: int}])] q = Some Q
                \<and> A \<in> set Q}
       \<noteq> card {A. \<exists>q Q. map_of [(1 :: int, [{1, 2}]), (2, [{1, 2}]), (3, [{1, 2, 3 :: int}])] q = Some Q
                \<and> A \<in> set Q}
   \<and> has_unique_atoms sorted_list_of_set [{1}, {1, 2}] = Some True
   \<and> atoms_at 1 [{1}, {1, 2}] \<inter> atoms_at 2 [{1}, {1, 2}] = {}"
proof -
  let ?F = "[{1, 2}, {1, 2, 3 :: int}]"
  let ?D = "[(1 :: int, [{1, 2}]), (2, [{1, 2}]), (3, [{1, 2, 3 :: int}])]"
  let ?G = "[{1}, {1, 2 :: int}]"
  have evG: "get_surmise sorted_list_of_set ?F = Some ?D" by code_simp
  have evH: "has_unique_atoms sorted_list_of_set ?F = Some False" by code_simp
  from has_unique_atoms_counts [of sorted_list_of_set ?F]
  obtain s where g: "get_surmise sorted_list_of_set ?F = Some s"
    and h: "has_unique_atoms sorted_list_of_set ?F
         = Some (card {(q, A). \<exists>Q. map_of s q = Some Q \<and> A \<in> set Q}
                  = card {A. \<exists>q Q. map_of s q = Some Q \<and> A \<in> set Q})"
    by (elim exE conjE)
  from g have s: "s = ?D" unfolding evG by (simp only: option.inject)
  from h have "Some False = Some (card {(q, A). \<exists>Q. map_of ?D q = Some Q \<and> A \<in> set Q}
                  = card {A. \<exists>q Q. map_of ?D q = Some Q \<and> A \<in> set Q})"
    unfolding evH s .
  then have a: "card {(q, A). \<exists>Q. map_of ?D q = Some Q \<and> A \<in> set Q}
                  \<noteq> card {A. \<exists>q Q. map_of ?D q = Some Q \<and> A \<in> set Q}"
    by (simp only: option.inject simp_thms)
  have evH': "has_unique_atoms sorted_list_of_set ?G = Some True" by code_simp
  have v: "set (sorted_list_of_set (\<Union>(set ?G))) = \<Union>(set ?G)" by code_simp
  have m1: "1 \<in> \<Union>(set ?G)" and m2: "2 \<in> \<Union>(set ?G)" by code_simp+
  have ne: "(1 :: int) \<noteq> 2" by simp
  from has_unique_atoms_counts [of sorted_list_of_set ?G]
  obtain s' where "set (sorted_list_of_set (\<Union>(set ?G))) = \<Union>(set ?G) \<longrightarrow>
          (has_unique_atoms sorted_list_of_set ?G = Some True)
            = (\<forall>q\<in>\<Union>(set ?G). \<forall>q'\<in>\<Union>(set ?G). q \<noteq> q'
                 \<longrightarrow> atoms_at q ?G \<inter> atoms_at q' ?G = {})"
    by (elim exE conjE)
  from this [THEN mp, OF v, THEN iffD1, OF evH']
  have "\<forall>q\<in>\<Union>(set ?G). \<forall>q'\<in>\<Union>(set ?G). q \<noteq> q' \<longrightarrow> atoms_at q ?G \<inter> atoms_at q' ?G = {}" .
  note b = this [THEN bspec, OF m1, THEN bspec, OF m2, THEN mp, OF ne]
  show ?thesis
    by (intro conjI) (rule evH a evH' b)+
qed

subsection \<open>is\_well\_graded\<close>

lemma has_unique_atoms_total:
  "has_unique_atoms iter sets = Some True \<or> has_unique_atoms iter sets = Some False"
proof -
  from has_unique_atoms_spec [of iter sets]
  obtain u where "has_unique_atoms iter sets = Some u" by (elim exE conjE)
  then show ?thesis by (cases u) simp_all
qed

lemma report_Nil: "report iter sets [] = []"
  by (simp add: report_def)

lemma report_pass: "passes iter sets b \<Longrightarrow>
    report iter sets (b # base) = passed_line iter b # report iter sets base"
  by (simp add: report_def)

lemma report_fail: "\<not> passes iter sets b \<Longrightarrow> report iter sets (b # base) = [error_line iter b]"
  by (simp add: report_def)

lemma is_well_graded_loop_spec:
  "is_well_graded_loop iter sets base out
     = Some (out @ report iter sets base, list_all (passes iter sets) base)"
proof (induction base arbitrary: out)
  case Nil
  then show ?case by (simp add: report_Nil)
next
  case (Cons b base)
  show ?case
  proof (cases "passes iter sets b")
    case True
    then have "has_unique_atoms iter (project_family sets b) = Some True"
      by (simp add: passes_def)
    then have "is_well_graded_loop iter sets (b # base) out
        = is_well_graded_loop iter sets base (out @ [passed_line iter b])"
      by (simp add: passed_line_def)
    with True show ?thesis by (simp add: Cons.IH report_pass)
  next
    case False
    with has_unique_atoms_total [of iter "project_family sets b"]
    have "has_unique_atoms iter (project_family sets b) = Some False"
      by (simp add: passes_def)
    then have "is_well_graded_loop iter sets (b # base) out = Some (out @ [error_line iter b], False)"
      by (simp add: error_line_def)
    with False show ?thesis by (simp add: report_fail)
  qed
qed

lemma is_well_graded_spec:
  "is_well_graded iter sets base
     = Some (''Checking if each projection is well-graded...'' # report iter sets base,
             list_all (passes iter sets) base)"
  by (simp add: is_well_graded_def is_well_graded_loop_spec)

lemma report_stop:
  "\<forall>a\<in>set pre. passes iter sets a \<Longrightarrow> \<not> passes iter sets b \<Longrightarrow>
     report iter sets (pre @ b # rest) = map (passed_line iter) pre @ [error_line iter b]"
  by (induction pre) (simp_all add: report_pass report_fail)

text \<open>
  C3. \<open>is_well_graded\<close> returns (no \<^verbatim>\<open>KeyError\<close>), and the boolean it returns is \<open>True\<close>
  exactly when \<open>has_unique_atoms\<close> answers \<open>True\<close> on the projection by every generator
  of the base. It returns \<open>False\<close> at the first generator \<open>b\<close> whose projection fails:
  the printed lines end with the error line of \<open>b\<close>, and the generators after \<open>b\<close>
  change neither the lines nor the result.
\<close>

theorem is_well_graded_correct:
  "(\<exists>out. is_well_graded iter sets base
       = Some (out, \<forall>b\<in>set base. has_unique_atoms iter (project_family sets b) = Some True))
   \<and> (\<forall>pre b rest.
        (\<forall>a\<in>set pre. has_unique_atoms iter (project_family sets a) = Some True)
        \<and> has_unique_atoms iter (project_family sets b) \<noteq> Some True \<longrightarrow>
        is_well_graded iter sets (pre @ b # rest)
          = Some (''Checking if each projection is well-graded...''
                    # map (\<lambda>a. proj_str (iter a) @ '' is well-graded'') pre
                    @ [''ERROR: '' @ proj_str (iter b) @ '' is not well-graded''],
                  False))"
proof (intro conjI allI impI)
  have eq: "list_all (passes iter sets) base
      = (\<forall>b\<in>set base. has_unique_atoms iter (project_family sets b) = Some True)"
    unfolding list_all_iff by (rule ball_cong) (simp_all only: passes_def)
  show "\<exists>out. is_well_graded iter sets base
       = Some (out, \<forall>b\<in>set base. has_unique_atoms iter (project_family sets b) = Some True)"
    by (rule exI, rule is_well_graded_spec [of iter sets base, unfolded eq])
next
  fix pre b rest
  assume a: "(\<forall>a\<in>set pre. has_unique_atoms iter (project_family sets a) = Some True)
        \<and> has_unique_atoms iter (project_family sets b) \<noteq> Some True"
  from a have p: "\<forall>a\<in>set pre. passes iter sets a"
    unfolding passes_def by (rule conjunct1)
  from a have f: "\<not> passes iter sets b"
    unfolding passes_def by (rule conjunct2)
  have r: "report iter sets (pre @ b # rest) = map (passed_line iter) pre @ [error_line iter b]"
    using p f by (rule report_stop)
  have l: "list_all (passes iter sets) (pre @ b # rest) = False"
    using f by simp
  have m: "map (passed_line iter) pre = map (\<lambda>a. proj_str (iter a) @ '' is well-graded'') pre"
    by (rule map_cong) (simp_all only: passed_line_def)
  have "is_well_graded iter sets (pre @ b # rest)
      = Some (''Checking if each projection is well-graded...''
                # map (passed_line iter) pre @ [error_line iter b], False)"
    by (simp only: is_well_graded_spec r l)
  then show "is_well_graded iter sets (pre @ b # rest)
          = Some (''Checking if each projection is well-graded...''
                    # map (\<lambda>a. proj_str (iter a) @ '' is well-graded'') pre
                    @ [''ERROR: '' @ proj_str (iter b) @ '' is not well-graded''],
                  False)"
    by (simp only: m error_line_def)
qed

theorem is_well_graded_correct_witness:
  "(\<exists>out. is_well_graded sorted_list_of_set [{1}, {1, 2}] [{1}] = Some (out, True))
   \<and> is_well_graded sorted_list_of_set [{1, 2}, {3}] [{1, 2}, {3}, {7}]
       = Some ([''Checking if each projection is well-graded...'',
                ''F'' @ [CHR 0x5C] @ ''{1,2} is well-graded'',
                ''ERROR: F'' @ [CHR 0x5C] @ ''{3} is not well-graded''], False)"
proof -
  let ?it = "sorted_list_of_set :: int set \<Rightarrow> int list"
  let ?S = "[{1, 2}, {3 :: int}]"
  have e: "(\<forall>b\<in>set [{1}]. has_unique_atoms ?it (project_family [{1}, {1, 2}] b) = Some True) = True"
    by code_simp
  note a = is_well_graded_correct [of ?it "[{1}, {1, 2}]" "[{1}]", THEN conjunct1, unfolded e]
  have h1: "\<forall>a\<in>set [{1, 2}]. has_unique_atoms ?it (project_family ?S a) = Some True"
    by code_simp
  have h2: "has_unique_atoms ?it (project_family ?S {3}) \<noteq> Some True"
    by code_simp
  note t = is_well_graded_correct [of ?it ?S, THEN conjunct2, rule_format,
      of "[{1, 2}]" "{3}" "[{7}]", OF conjI, OF h1 h2]
  have ev: "''Checking if each projection is well-graded...''
                    # map (\<lambda>a. proj_str (?it a) @ '' is well-graded'') [{1, 2}]
                    @ [''ERROR: '' @ proj_str (?it {3}) @ '' is not well-graded'']
      = [''Checking if each projection is well-graded...'',
                ''F'' @ [CHR 0x5C] @ ''{1,2} is well-graded'',
                ''ERROR: F'' @ [CHR 0x5C] @ ''{3} is not well-graded'']"
    by code_simp
  have b: "is_well_graded ?it ?S [{1, 2}, {3}, {7}]
       = Some ([''Checking if each projection is well-graded...'',
                ''F'' @ [CHR 0x5C] @ ''{1,2} is well-graded'',
                ''ERROR: F'' @ [CHR 0x5C] @ ''{3} is not well-graded''], False)"
    using t unfolding ev by simp
  show ?thesis by (intro conjI) (rule a b)+
qed


text \<open>
  C10. With an empty base \<open>is_well_graded\<close> returns \<open>True\<close> whatever the family is, and
  prints the opening line only: no projection is computed.
\<close>

theorem is_well_graded_empty_base:
  "is_well_graded iter sets [] = Some ([''Checking if each projection is well-graded...''], True)"
  by (simp add: is_well_graded_def)

text \<open>
  C8, as stated, fails: the elements of \<open>b\<close> are joined in the order in which \<open>b\<close>
  is walked, and the program does not sort them. For the base \<open>{{4, 5, 6, 8}}\<close>
  walked in \<open>slot_order\<close> the line is \<^verbatim>\<open>F\{8,4,5,6} is well-graded\<close>, where the
  ascending order would give \<^verbatim>\<open>F\{4,5,6,8} is well-graded\<close>.
\<close>

theorem is_well_graded_label_counterexample:
  "is_well_graded slot_order [{4, 5, 6, 8}] [{4, 5, 6, 8}]
     = Some ([''Checking if each projection is well-graded...'',
              ''F'' @ [CHR 0x5C] @ ''{8,4,5,6} is well-graded''], True)
   \<and> ''F'' @ [CHR 0x5C] @ ''{8,4,5,6} is well-graded''
       \<noteq> ''F'' @ [CHR 0x5C] @ ''{'' @ join '','' (map str_int (sorted_list_of_set {4, 5, 6, 8}))
           @ ''}'' @ '' is well-graded''
   \<and> ''F'' @ [CHR 0x5C] @ ''{'' @ join '','' (map str_int (sorted_list_of_set {4, 5, 6, 8})) @ ''}''
       = ''F'' @ [CHR 0x5C] @ ''{4,5,6,8}''
   \<and> set (slot_order {4, 5, 6, 8}) = {4, 5, 6, 8} \<and> distinct (slot_order {4, 5, 6, 8})"
  by code_simp

lemma report_reached:
  "\<forall>a\<in>set pre. passes iter sets a \<Longrightarrow>
     report iter sets (pre @ b # rest)
       = map (passed_line iter) pre
         @ (if passes iter sets b then passed_line iter b else error_line iter b)
         # (if passes iter sets b then report iter sets rest else [])"
  by (induction pre) (simp_all add: report_pass report_fail)

lemma report_line:
  assumes "\<forall>a\<in>set pre. passes iter sets a"
  shows "(h # report iter sets (pre @ b # rest)) ! Suc (length pre)
           = (if passes iter sets b then passed_line iter b else error_line iter b)"
proof -
  have "length (map (passed_line iter) pre) = length pre" by simp
  then show ?thesis
    unfolding report_reached [OF assms] nth_Cons_Suc
    by (metis nth_append_length)
qed

text \<open>
  C8, amended. For every generator \<open>b\<close> that the loop reaches (the projections by
  the generators before it all pass), the line printed for \<open>b\<close> names the projection
  as \<^verbatim>\<open>F\{...}\<close>, the elements of \<open>b\<close> written in decimal and joined by commas in the
  order in which \<open>b\<close> is walked; a generator walked in ascending order is named by
  its elements in ascending order.
\<close>

theorem is_well_graded_label:
  "\<forall>pre b rest out ok.
     base = pre @ b # rest
     \<and> (\<forall>a\<in>set pre. has_unique_atoms iter (project_family sets a) = Some True)
     \<and> is_well_graded iter sets base = Some (out, ok) \<longrightarrow>
       out ! Suc (length pre)
         = (if has_unique_atoms iter (project_family sets b) = Some True
            then proj_str (iter b) @ '' is well-graded''
            else ''ERROR: '' @ proj_str (iter b) @ '' is not well-graded'')
       \<and> proj_str (iter b)
           = ''F'' @ [CHR 0x5C] @ ''{'' @ join '','' (map str_int (iter b)) @ ''}''
       \<and> (iter b = sorted_list_of_set b \<longrightarrow>
            proj_str (iter b)
              = ''F'' @ [CHR 0x5C] @ ''{'' @ join '','' (map str_int (sorted_list_of_set b)) @ ''}'')"
proof (intro allI impI)
  fix pre b rest out ok
  assume a: "base = pre @ b # rest
     \<and> (\<forall>a\<in>set pre. has_unique_atoms iter (project_family sets a) = Some True)
     \<and> is_well_graded iter sets base = Some (out, ok)"
  from a have base: "base = pre @ b # rest" by (rule conjunct1)
  from a have p: "\<forall>a\<in>set pre. passes iter sets a"
    unfolding passes_def by (rule conjunct2 [THEN conjunct1])
  from a have "is_well_graded iter sets base = Some (out, ok)"
    by (rule conjunct2 [THEN conjunct2])
  then have out: "out = ''Checking if each projection is well-graded...'' # report iter sets base"
    by (simp add: is_well_graded_spec)
  have 1: "out ! Suc (length pre)
         = (if has_unique_atoms iter (project_family sets b) = Some True
            then proj_str (iter b) @ '' is well-graded''
            else ''ERROR: '' @ proj_str (iter b) @ '' is not well-graded'')"
    unfolding out base report_line [OF p]
    by (simp only: passes_def passed_line_def error_line_def)
  have 2: "proj_str (iter b)
           = ''F'' @ [CHR 0x5C] @ ''{'' @ join '','' (map str_int (iter b)) @ ''}''"
    by (rule proj_str_def)
  have 3: "iter b = sorted_list_of_set b \<longrightarrow>
            proj_str (iter b)
              = ''F'' @ [CHR 0x5C] @ ''{'' @ join '','' (map str_int (sorted_list_of_set b)) @ ''}''"
  proof
    assume "iter b = sorted_list_of_set b"
    then show "proj_str (iter b)
              = ''F'' @ [CHR 0x5C] @ ''{'' @ join '','' (map str_int (sorted_list_of_set b)) @ ''}''"
      by (simp only: proj_str_def)
  qed
  from 1 2 3 show "out ! Suc (length pre)
         = (if has_unique_atoms iter (project_family sets b) = Some True
            then proj_str (iter b) @ '' is well-graded''
            else ''ERROR: '' @ proj_str (iter b) @ '' is not well-graded'')
       \<and> proj_str (iter b)
           = ''F'' @ [CHR 0x5C] @ ''{'' @ join '','' (map str_int (iter b)) @ ''}''
       \<and> (iter b = sorted_list_of_set b \<longrightarrow>
            proj_str (iter b)
              = ''F'' @ [CHR 0x5C] @ ''{'' @ join '','' (map str_int (sorted_list_of_set b)) @ ''}'')"
    by (intro conjI)
qed

theorem is_well_graded_label_witness:
  "[''Checking if each projection is well-graded...'',
    ''F'' @ [CHR 0x5C] @ ''{1,2} is well-graded'',
    ''ERROR: F'' @ [CHR 0x5C] @ ''{3} is not well-graded''] ! Suc (length [{1, 2 :: int}])
     = ''ERROR: F'' @ [CHR 0x5C] @ ''{3} is not well-graded''
   \<and> is_well_graded slot_order [{4, 5, 6, 8}] [{4, 5, 6, 8}]
       = Some ([''Checking if each projection is well-graded...'',
                ''F'' @ [CHR 0x5C] @ ''{8,4,5,6} is well-graded''], True)
   \<and> proj_str (slot_order {4, 5, 6, 8}) = ''F'' @ [CHR 0x5C] @ ''{8,4,5,6}''"
proof -
  let ?it = "sorted_list_of_set :: int set \<Rightarrow> int list"
  let ?S = "[{1, 2}, {3 :: int}]"
  let ?out = "[''Checking if each projection is well-graded...'',
    ''F'' @ [CHR 0x5C] @ ''{1,2} is well-graded'',
    ''ERROR: F'' @ [CHR 0x5C] @ ''{3} is not well-graded'']"
  have h0: "[{1, 2}, {3}, {7 :: int}] = [{1, 2}] @ {3} # [{7}]" by simp
  have h1: "\<forall>a\<in>set [{1, 2}]. has_unique_atoms ?it (project_family ?S a) = Some True"
    by code_simp
  have h2: "is_well_graded ?it ?S [{1, 2}, {3}, {7}] = Some (?out, False)"
    by code_simp
  have f: "has_unique_atoms ?it (project_family ?S {3}) \<noteq> Some True"
    by code_simp
  note t = is_well_graded_label [of "[{1, 2}, {3}, {7}]" ?it ?S, rule_format,
      of "[{1, 2}]" "{3}" "[{7}]" ?out False, OF conjI, OF h0 conjI, OF h1 h2]
  have l: "''ERROR: '' @ proj_str (?it {3}) @ '' is not well-graded''
      = ''ERROR: F'' @ [CHR 0x5C] @ ''{3} is not well-graded''"
    by code_simp
  from t [THEN conjunct1] f
  have a: "?out ! Suc (length [{1, 2 :: int}]) = ''ERROR: F'' @ [CHR 0x5C] @ ''{3} is not well-graded''"
    unfolding l by (simp only: if_False)
  have b: "is_well_graded slot_order [{4, 5, 6, 8}] [{4, 5, 6, 8}]
       = Some ([''Checking if each projection is well-graded...'',
                ''F'' @ [CHR 0x5C] @ ''{8,4,5,6} is well-graded''], True)"
    by code_simp
  have c: "proj_str (slot_order {4, 5, 6, 8}) = ''F'' @ [CHR 0x5C] @ ''{8,4,5,6}''"
    by code_simp
  show ?thesis by (intro conjI) (rule a b c)+
qed

end
